theory Spec2Isabelle
  imports Main "HOL-Library.Char_ord" "HOL-Library.List_Lexorder"
begin

section \<open>JavaScript values used by both sides\<close>

text \<open>
  The texts the client handles (ids, file references, messages) are byte strings. A value
  that is a string or \<open>null\<close> is a \<open>string option\<close>; it is truthy when it is a non-empty
  string.
\<close>

definition truthy :: "string option \<Rightarrow> bool" where
  "truthy v = (case v of None \<Rightarrow> False | Some s \<Rightarrow> s \<noteq> [])"

text \<open>\<open>v || null\<close> for a string-or-null value.\<close>

definition or_null :: "string option \<Rightarrow> string option" where
  "or_null v = (if truthy v then v else None)"

text \<open>\<open>v || d\<close> with a string default.\<close>

definition or_default :: "string option \<Rightarrow> string \<Rightarrow> string" where
  "or_default v d = (case v of None \<Rightarrow> d | Some s \<Rightarrow> if s = [] then d else s)"

text \<open>
  Where the program looks at single characters of a text it was sent (the query parameters
  that the server trims and parses, the payload that it encodes), the text is a JavaScript
  string as it is: the list of its UTF-16 code units. A byte string is read as such a string
  unit by unit, and \<open>text_of\<close> gives the byte string back.
\<close>

type_synonym jstring = "nat list"

definition ascii :: "string \<Rightarrow> jstring" where
  "ascii s = map of_char s"

definition text_of :: "jstring \<Rightarrow> string" where
  "text_of u = map char_of u"

text \<open>
  The white space and line terminators of the language, which \<open>String.prototype.trim\<close> and
  \<open>parseInt\<close> skip: tab, LF, VT, FF, CR, space, no-break space, U+1680, U+2000 to U+200A,
  U+2028, U+2029, U+202F, U+205F, U+3000 and U+FEFF.
\<close>

definition js_ws :: "nat \<Rightarrow> bool" where
  "js_ws u = (u \<in> set [9, 10, 11, 12, 13, 32, 160, 5760, 8232, 8233, 8239, 8287, 12288, 65279]
              \<or> (8192 \<le> u \<and> u \<le> 8202))"

text \<open>\<open>String.prototype.trim\<close>: white space is removed at both ends.\<close>

definition trim :: "jstring \<Rightarrow> jstring" where
  "trim s = rev (dropWhile js_ws (rev (dropWhile js_ws s)))"

text \<open>\<open>s.split(c)\<close> for a one-character separator: the pieces between the separators, at least one.\<close>

fun split_on :: "char \<Rightarrow> string \<Rightarrow> string list" where
  "split_on c [] = [[]]"
| "split_on c (x # xs) =
     (if x = c then [] # split_on c xs
      else (case split_on c xs of [] \<Rightarrow> [[x]] | p # ps \<Rightarrow> (x # p) # ps))"

text \<open>\<open>xs[i]\<close>: \<open>undefined\<close> out of range.\<close>

definition nth_opt :: "'a list \<Rightarrow> nat \<Rightarrow> 'a option" where
  "nth_opt xs i = (if i < length xs then Some (xs ! i) else None)"

text \<open>
  A JavaScript number as far as \<open>parseInt\<close> and \<open>Number.isFinite\<close> tell numbers apart
  (\<open>Number.isFinite\<close> holds of \<open>Finite n\<close> only). A finite value is kept exact: the program
  only compares it with 1 and 200.
\<close>

datatype js_number = NaN | Finite int | PosInfinity | NegInfinity

text \<open>A decimal digit, in a byte string.\<close>

definition is_digit :: "char \<Rightarrow> bool" where
  "is_digit c = (CHR ''0'' \<le> c \<and> c \<le> CHR ''9'')"

text \<open>The code units of the decimal digits, and the number a run of them denotes.\<close>

definition is_decimal_digit :: "nat \<Rightarrow> bool" where
  "is_decimal_digit u = (48 \<le> u \<and> u \<le> 57)"

definition digit_val :: "nat \<Rightarrow> int" where
  "digit_val u = int u - 48"

definition decimal_val :: "jstring \<Rightarrow> int" where
  "decimal_val ds = foldl (\<lambda>a u. 10 * a + digit_val u) 0 ds"

text \<open>The least magnitude that rounds to an infinite double (round to nearest, ties to even).\<close>

definition DOUBLE_OVERFLOW :: int where
  "DOUBLE_OVERFLOW = 2 ^ 1024 - 2 ^ 970"

text \<open>
  \<open>parseInt(s, 10)\<close>: leading white space is skipped, one sign is read (45 is the minus sign,
  43 the plus sign), then the longest run of decimal digits; no digit gives \<open>NaN\<close>, and a
  value too large for a double gives an infinity.
\<close>

definition parseInt :: "jstring \<Rightarrow> js_number" where
  "parseInt s =
     (let t = dropWhile js_ws s;
          neg = (t \<noteq> [] \<and> hd t = 45);
          u = (if t \<noteq> [] \<and> (hd t = 45 \<or> hd t = 43) then tl t else t);
          z = takeWhile is_decimal_digit u
      in if z = [] then NaN
         else if DOUBLE_OVERFLOW \<le> decimal_val z then (if neg then NegInfinity else PosInfinity)
         else Finite (if neg then - decimal_val z else decimal_val z))"

section \<open>The gallery item on the wire\<close>

record gallery_item =
  item_id :: string
  prompt :: string
  metadata :: string
  chat_id :: "string option"
  file_id :: "string option"
  timestamp :: int

section \<open>Server: server/index.js\<close>

text \<open>
  A stored document. Its \<open>_id\<close> is an ObjectId, a type of the database driver: the model is
  generic in it (\<open>'i\<close>, linearly ordered as the database orders ids) and takes the driver's
  \<open>new ObjectId(string)\<close> and \<open>toString()\<close> as parameters. \<open>ObjectId s = Inl msg\<close> stands for a
  constructor that throws (with \<open>String(e) = msg\<close>); \<open>ObjectId.isValid(s)\<close> is that it does not.
  The paginated read hands the driver the trimmed cursor, a JavaScript string.
\<close>

record telegram =
  tg_chat_id :: "string option"
  tg_file_id :: "string option"

record 'i doc =
  doc_id :: 'i
  doc_prompt :: string
  doc_metadata :: "string option"
  doc_telegram :: "telegram option"
  doc_timestamp :: int


datatype response_body =
    ErrorBody string
  | DeletedBody string
  | PageBody "gallery_item list" bool "string option" int
  | ListBody "gallery_item list"

record response =
  status :: nat
  body :: response_body

definition jsonResponse :: "response_body \<Rightarrow> nat \<Rightarrow> response" where
  "jsonResponse data st = \<lparr>status = st, body = data\<rparr>"

definition toGalleryItem :: "('i \<Rightarrow> string) \<Rightarrow> 'i doc \<Rightarrow> gallery_item" where
  "toGalleryItem toString d =
     \<lparr>item_id = toString (doc_id d),
      prompt = doc_prompt d,
      metadata = (case doc_metadata d of None \<Rightarrow> ''{}'' | Some m \<Rightarrow> m),
      chat_id = (case doc_telegram d of None \<Rightarrow> None | Some t \<Rightarrow> or_null (tg_chat_id t)),
      file_id = (case doc_telegram d of None \<Rightarrow> None | Some t \<Rightarrow> or_null (tg_file_id t)),
      timestamp = doc_timestamp d\<rparr>"

text \<open>\<open>collection.find(query).sort({_id: -1}).limit(n).toArray()\<close>\<close>

definition find_sorted_desc :: "('i::linorder doc \<Rightarrow> bool) \<Rightarrow> nat \<Rightarrow> 'i doc list \<Rightarrow> 'i doc list" where
  "find_sorted_desc query n coll = take n (rev (sort_key doc_id (filter query coll)))"

text \<open>\<open>collection.find({}).sort({timestamp: -1}).limit(n).toArray()\<close>\<close>

definition find_by_timestamp_desc :: "nat \<Rightarrow> 'i doc list \<Rightarrow> 'i doc list" where
  "find_by_timestamp_desc n coll = take n (rev (sort_key doc_timestamp coll))"

text \<open>\<open>collection.deleteOne({_id: oid})\<close>: the collection without the first match, and \<open>deletedCount\<close>.\<close>

fun deleteOne :: "'i \<Rightarrow> 'i doc list \<Rightarrow> 'i doc list \<times> nat" where
  "deleteOne oid [] = ([], 0)"
| "deleteOne oid (d # ds) =
     (if doc_id d = oid then (ds, 1)
      else (case deleteOne oid ds of (ds', n) \<Rightarrow> (d # ds', n)))"

record request =
  req_method :: string
  authorization :: "string option"
  limit_param :: "string option"
  cursor_param :: "string option"
  body_id :: "string option"

record env =
  JWT_SECRET :: "string option"
  MONGO_URI :: "string option"

text \<open>The effective page size of a paginated read: lines 233 to 236 of server/index.js.\<close>

definition page_limit :: "jstring option \<Rightarrow> int" where
  "page_limit limitRaw =
     (let parsedLimit = parseInt (case limitRaw of None \<Rightarrow> [] | Some s \<Rightarrow> s)
      in case parsedLimit of Finite n \<Rightarrow> max 1 (min n 200) | _ \<Rightarrow> 60)"

text \<open>
  Lines 246 to 263: the page of the documents that satisfy \<open>query\<close>, read with one document more
  than \<open>limit\<close> to learn whether more remain.
\<close>

definition page_response ::
  "('i::linorder \<Rightarrow> string) \<Rightarrow> 'i doc list \<Rightarrow> int \<Rightarrow> ('i doc \<Rightarrow> bool) \<Rightarrow> response" where
  "page_response toString coll limit query =
     (let docs = find_sorted_desc query (nat limit + 1) coll;
          hasMore = (int (length docs) > limit);
          pageDocs = (if hasMore then take (nat limit) docs else docs);
          items = map (toGalleryItem toString) pageDocs;
          nextCursor = (if hasMore \<and> length pageDocs > 0
                        then Some (toString (doc_id (last pageDocs))) else None)
      in jsonResponse (PageBody items hasMore nextCursor limit) 200)"

text \<open>
  The \<open>GET\<close> branch of the callback that \<open>handleGallery\<close> passes to \<open>withMongo\<close>, on the two
  query parameters as \<open>url.searchParams.get\<close> returns them. The test
  \<open>ObjectId.isValid(cursor)\<close> and the construction \<open>new ObjectId(cursor)\<close> are the one case
  distinction on \<open>ObjectId cursor\<close>.
\<close>

definition handleGallery_get ::
  "(jstring \<Rightarrow> string + 'i::linorder) \<Rightarrow> ('i \<Rightarrow> string) \<Rightarrow> 'i doc list
     \<Rightarrow> jstring option \<Rightarrow> jstring option \<Rightarrow> response" where
  "handleGallery_get ObjectId toString coll limitRaw cursorRaw =
     (let cursor = (case cursorRaw of None \<Rightarrow> [] | Some s \<Rightarrow> trim s);
          wantsPagination = (limitRaw \<noteq> None \<or> cursor \<noteq> [])
      in if wantsPagination then
           (let limit = page_limit limitRaw
            in if cursor \<noteq> [] then
                 (case ObjectId cursor of
                    Inl _ \<Rightarrow> jsonResponse (ErrorBody ''Invalid cursor'') 400
                  | Inr c \<Rightarrow> page_response toString coll limit (\<lambda>d. doc_id d < c))
               else page_response toString coll limit (\<lambda>d. True))
         else jsonResponse (ListBody (map (toGalleryItem toString) (find_by_timestamp_desc 200 coll))) 200)"

text \<open>The \<open>DELETE\<close> branch of the same callback; it returns the collection it leaves.\<close>

definition handleGallery_delete ::
  "(string \<Rightarrow> string + 'i) \<Rightarrow> 'i doc list \<Rightarrow> string option \<Rightarrow> response \<times> 'i doc list" where
  "handleGallery_delete ObjectId coll bid =
     (if \<not> truthy bid then (jsonResponse (ErrorBody ''Missing id'') 400, coll)
      else (case ObjectId (the bid) of
              Inl msg \<Rightarrow> (jsonResponse (ErrorBody msg) 500, coll)
            | Inr oid \<Rightarrow>
                (case deleteOne oid coll of
                   (coll', deletedCount) \<Rightarrow>
                     if deletedCount = 1 then (jsonResponse (DeletedBody (the bid)) 200, coll')
                     else (jsonResponse (ErrorBody ''Not found'') 404, coll'))))"

text \<open>
  \<open>handleGallery\<close>: the check of the verb, the bearer token (\<open>jwtVerify_ok token secret\<close> says that
  \<open>jwtVerify\<close> returns rather than throws), the database setting, then the callback. The
  database is taken to be reachable. The request is one of the client, whose texts are byte
  strings: the query parameters are read as JavaScript strings, and the driver, given on byte
  strings, receives the text of the trimmed cursor.
\<close>

definition handleGallery ::
  "(string \<Rightarrow> string \<Rightarrow> bool) \<Rightarrow> (string \<Rightarrow> string + 'i::linorder) \<Rightarrow> ('i \<Rightarrow> string)
     \<Rightarrow> env \<Rightarrow> request \<Rightarrow> 'i doc list \<Rightarrow> response \<times> 'i doc list" where
  "handleGallery jwtVerify_ok ObjectId toString e req coll =
     (if req_method req \<noteq> ''GET'' \<and> req_method req \<noteq> ''DELETE''
      then (jsonResponse (ErrorBody ''Method Not Allowed'') 405, coll)
      else
        (let auth = nth_opt (split_on CHR '' '' (or_default (authorization req) [])) 1;
             SECRET = or_default (JWT_SECRET e) ''change-me''
         in if \<not> (truthy auth \<and> jwtVerify_ok (the auth) SECRET)
            then (jsonResponse (ErrorBody ''Unauthorized'') 401, coll)
            else if \<not> truthy (MONGO_URI e)
            then (jsonResponse (ErrorBody ''MONGO_URI not configured'') 500, coll)
            else if req_method req = ''DELETE''
            then handleGallery_delete ObjectId coll (body_id req)
            else (handleGallery_get (\<lambda>u. ObjectId (text_of u)) toString coll
                    (map_option ascii (limit_param req)) (map_option ascii (cursor_param req)), coll)))"

section \<open>Client: src/components/Gallery.vue\<close>

subsection \<open>Values\<close>

definition PAGE_SIZE :: nat where
  "PAGE_SIZE = 60"

text \<open>An entry of the in-memory list: the item from the server, with \<open>src\<close> and \<open>loading\<close> added by the client.\<close>

record entry =
  item :: gallery_item
  src :: "string option"
  entry_loading :: bool

definition entry_id :: "entry \<Rightarrow> string" where
  "entry_id e = item_id (item e)"

text \<open>What \<open>hideEntryOptimistically\<close> returns: \<open>{ entry, index }\<close>.\<close>

record snapshot =
  snap_entry :: entry
  snap_index :: nat

datatype js_error = Error string | TypeError string

definition error_message :: "js_error \<Rightarrow> string" where
  "error_message e = (case e of Error m \<Rightarrow> m | TypeError m \<Rightarrow> m)"

text \<open>\<open>String(e)\<close>\<close>

definition String_of_error :: "js_error \<Rightarrow> string" where
  "String_of_error e =
     (case e of
        Error m \<Rightarrow> (if m = [] then ''Error'' else ''Error: '' @ m)
      | TypeError m \<Rightarrow> (if m = [] then ''TypeError'' else ''TypeError: '' @ m))"

text \<open>\<open>String(e.message || e)\<close>\<close>

definition message_or_error :: "js_error \<Rightarrow> string" where
  "message_or_error e = (if error_message e = [] then String_of_error e else error_message e)"

text \<open>
  The toast shown to the user. The texts are Chinese templates; the model keeps which template
  it is and the numbers and text put into it: deleted, delete failed (with the error text),
  select pictures first, \<open>n\<close> deleted, \<open>n\<close> deleted and \<open>m\<close> failed, image cache cleared.
\<close>

datatype toast =
    ToastDeleted
  | ToastDeleteFailed string
  | ToastSelectFirst
  | ToastBatchDeleted nat
  | ToastBatchPartial nat nat
  | ToastCacheCleared

text \<open>
  How an HTTP exchange ends for the client: \<open>fetch\<close> rejects, or a reply arrives with its
  status and its body as \<open>resp.json()\<close> reads it (\<open>None\<close> when that fails).
\<close>

datatype fetch_result = Rejected js_error | Replied nat "response_body option"

definition resp_ok :: "nat \<Rightarrow> bool" where
  "resp_ok st = (200 \<le> st \<and> st \<le> 299)"

text \<open>\<open>body?.error\<close>\<close>

definition body_error :: "response_body option \<Rightarrow> string option" where
  "body_error b = (case b of Some (ErrorBody m) \<Rightarrow> Some m | _ \<Rightarrow> None)"

text \<open>The default text of a failed delete, in UTF-8.\<close>

definition delete_failed_text :: string where
  "delete_failed_text = map char_of [229::nat, 136, 160, 233, 153, 164, 229, 164, 177, 232, 180, 165]"

definition requestDeleteById :: "fetch_result \<Rightarrow> js_error + response_body option" where
  "requestDeleteById fr =
     (case fr of
        Rejected e \<Rightarrow> Inl e
      | Replied st b \<Rightarrow>
          if \<not> resp_ok st then Inl (Error (or_default (body_error b) delete_failed_text))
          else Inr b)"

record page =
  items :: "gallery_item list"
  page_hasMore :: bool
  nextCursor :: "string option"

definition fetchGalleryPage :: "nat \<Rightarrow> fetch_result \<Rightarrow> js_error + page" where
  "fetchGalleryPage limit fr =
     (case fr of
        Rejected e \<Rightarrow> Inl e
      | Replied st b \<Rightarrow>
          if \<not> resp_ok st then Inl (Error (or_default (body_error b) ''Failed to load''))
          else (case b of
                  Some (ListBody its) \<Rightarrow>
                    Inr \<lparr>items = its, page_hasMore = (limit \<le> length its),
                         nextCursor = (if 0 < length its then Some (item_id (last its)) else None)\<rparr>
                | Some (PageBody its hm nc lim) \<Rightarrow>
                    Inr \<lparr>items = its, page_hasMore = hm, nextCursor = or_null nc\<rparr>
                | _ \<Rightarrow> Inr \<lparr>items = [], page_hasMore = False, nextCursor = None\<rparr>))"

text \<open>\<open>String(n)\<close> for a natural number.\<close>

function string_of_nat :: "nat \<Rightarrow> string" where
  "string_of_nat n =
     (if n < 10 then [char_of (48 + n)]
      else string_of_nat (n div 10) @ [char_of (48 + n mod 10)])"
  by pat_completeness auto
termination
  by (relation "measure (\<lambda>n. n)") auto

declare string_of_nat.simps [simp del]

text \<open>The requests the client sends, as the server's handler reads them.\<close>

definition bearer :: "string option \<Rightarrow> string" where
  "bearer token = ''Bearer '' @ (case token of None \<Rightarrow> ''null'' | Some t \<Rightarrow> t)"

definition page_request :: "string option \<Rightarrow> string option \<Rightarrow> nat \<Rightarrow> request" where
  "page_request token cursor limit =
     \<lparr>req_method = ''GET'', authorization = Some (bearer token),
      limit_param = Some (string_of_nat limit),
      cursor_param = (if truthy cursor then cursor else None),
      body_id = None\<rparr>"

definition delete_request :: "string option \<Rightarrow> string \<Rightarrow> request" where
  "delete_request token entryId =
     \<lparr>req_method = ''DELETE'', authorization = Some (bearer token),
      limit_param = None, cursor_param = None, body_id = Some entryId\<rparr>"

text \<open>A reply of the server as the client's \<open>fetch\<close> sees it.\<close>

definition reply_of :: "response \<Rightarrow> fetch_result" where
  "reply_of r = Replied (status r) (Some (body r))"

subsection \<open>State\<close>

text \<open>
  The refs and variables of the component that the list and delete logic uses, and the two
  entries of \<open>localStorage\<close> (\<open>list_cache\<close>: null or the stored array; \<open>image_cache\<close>: file
  reference to URL). Writing to \<open>localStorage\<close> is taken to succeed.
\<close>

record state =
  entries :: "entry list"
  loading :: bool
  error :: string
  selectedIndex :: int
  loadingMore :: bool
  hasMore :: bool
  paginationCursor :: "string option"
  pendingImageLoads :: "string set"
  showDeleteModal :: bool
  pendingDelete :: "entry option"
  toastMessage :: "toast option"
  showToast :: bool
  batchMode :: bool
  selectedEntryIds :: "string list"
  pendingDeleteIds :: "string set"
  list_cache :: "gallery_item list option"
  image_cache :: "string \<rightharpoonup> string"

definition showToastMsg :: "toast \<Rightarrow> state \<Rightarrow> state" where
  "showToastMsg m s = s\<lparr>toastMessage := Some m, showToast := True\<rparr>"

definition syncSelectionWithEntries :: "state \<Rightarrow> state" where
  "syncSelectionWithEntries s =
     (let visibleIds = set (map entry_id (entries s))
      in s\<lparr>selectedEntryIds := filter (\<lambda>i. i \<in> visibleIds) (selectedEntryIds s)\<rparr>)"

definition toggleBatchMode :: "state \<Rightarrow> state" where
  "toggleBatchMode s =
     (let s1 = s\<lparr>batchMode := \<not> batchMode s, selectedIndex := -1\<rparr>
      in if \<not> batchMode s1 then s1\<lparr>selectedEntryIds := []\<rparr> else s1)"

definition toggleEntrySelection :: "string \<Rightarrow> state \<Rightarrow> state" where
  "toggleEntrySelection entryId s =
     (if entryId = [] then s
      else if entryId \<in> set (selectedEntryIds s)
      then s\<lparr>selectedEntryIds := filter (\<lambda>i. i \<noteq> entryId) (selectedEntryIds s)\<rparr>
      else s\<lparr>selectedEntryIds := selectedEntryIds s @ [entryId]\<rparr>)"

definition clearBatchSelection :: "state \<Rightarrow> state" where
  "clearBatchSelection s = s\<lparr>selectedEntryIds := []\<rparr>"

definition toggleSelectAllEntries :: "state \<Rightarrow> state" where
  "toggleSelectAllEntries s =
     (let allEntriesSelected =
            (0 < length (entries s) \<and> length (selectedEntryIds s) = length (entries s))
      in if allEntriesSelected then clearBatchSelection s
         else s\<lparr>selectedEntryIds := map entry_id (entries s)\<rparr>)"

definition openDeleteModal :: "entry \<Rightarrow> state \<Rightarrow> state" where
  "openDeleteModal e s = s\<lparr>pendingDelete := Some e, showDeleteModal := True\<rparr>"

definition cancelDelete :: "state \<Rightarrow> state" where
  "cancelDelete s = s\<lparr>pendingDelete := None, showDeleteModal := False\<rparr>"

text \<open>\<open>xs.findIndex(P)\<close>: \<open>None\<close> for \<open>-1\<close>.\<close>

fun findIndex :: "('a \<Rightarrow> bool) \<Rightarrow> 'a list \<Rightarrow> nat option" where
  "findIndex P [] = None"
| "findIndex P (x # xs) = (if P x then Some 0 else map_option Suc (findIndex P xs))"

subsection \<open>The caches\<close>

definition setGalleryListCache :: "gallery_item list \<Rightarrow> state \<Rightarrow> state" where
  "setGalleryListCache list s = s\<lparr>list_cache := Some (take PAGE_SIZE list)\<rparr>"

definition setImageCache :: "string \<Rightarrow> string \<Rightarrow> state \<Rightarrow> state" where
  "setImageCache fileId url s = s\<lparr>image_cache := (image_cache s)(fileId \<mapsto> url)\<rparr>"

definition removeEntryFromLocalCache :: "entry \<Rightarrow> state \<Rightarrow> state" where
  "removeEntryFromLocalCache e s =
     (let cached = (case list_cache s of None \<Rightarrow> [] | Some l \<Rightarrow> l);
          s1 = setGalleryListCache (filter (\<lambda>i. item_id i \<noteq> entry_id e) cached) s
      in if \<not> truthy (file_id (item e)) then s1
         else s1\<lparr>image_cache := (image_cache s1)(the (file_id (item e)) := None)\<rparr>)"

subsection \<open>Entries and their images\<close>

definition buildEntryWithCache ::
  "gallery_item \<Rightarrow> entry option \<Rightarrow> (string \<rightharpoonup> string) \<Rightarrow> bool \<Rightarrow> entry" where
  "buildEntryWithCache e existingEntry imageCache forceImageRefresh =
     (let fileId = file_id e;
          cachedData = (if truthy fileId then imageCache (the fileId) else None);
          existingSrc = (case existingEntry of None \<Rightarrow> None | Some x \<Rightarrow> src x);
          existingLoading = (case existingEntry of None \<Rightarrow> False | Some x \<Rightarrow> entry_loading x);
          keepExistingSrc = (truthy existingSrc \<and> \<not> forceImageRefresh);
          loadingState =
            (if forceImageRefresh then truthy fileId
             else if keepExistingSrc then False
             else if existingLoading \<and> cachedData = None then True
             else truthy fileId \<and> cachedData = None)
      in \<lparr>item = e,
          src = (if keepExistingSrc then existingSrc
                 else if cachedData \<noteq> None \<and> \<not> forceImageRefresh then cachedData else None),
          entry_loading = loadingState\<rparr>)"

text \<open>
  \<open>encodeURIComponent\<close> on a UTF-8 byte string: letters, digits and \<open>- _ . ! ~ * ' ( )\<close> stay,
  every other byte becomes \<open>%XX\<close>.
\<close>

definition uri_unreserved :: "char \<Rightarrow> bool" where
  "uri_unreserved c =
     ((CHR ''A'' \<le> c \<and> c \<le> CHR ''Z'') \<or> (CHR ''a'' \<le> c \<and> c \<le> CHR ''z'') \<or> is_digit c
      \<or> c \<in> set ''-_.!~*()'' \<or> c = char_of (39::nat))"

definition hex_digit :: "nat \<Rightarrow> char" where
  "hex_digit n = ''0123456789ABCDEF'' ! (n mod 16)"

definition encodeURIComponent :: "string \<Rightarrow> string" where
  "encodeURIComponent s =
     concat (map (\<lambda>c. if uri_unreserved c then [c]
                       else [CHR ''%'', hex_digit (of_char c div 16), hex_digit (of_char c mod 16)]) s)"

text \<open>\<open>loadEntryImage\<close> has no \<open>await\<close>: it runs to its end when called. It changes the entry it is given.\<close>

definition loadEntryImage :: "entry \<Rightarrow> state \<Rightarrow> entry \<times> state" where
  "loadEntryImage e s =
     (let fileId = file_id (item e)
      in if \<not> truthy fileId then (e, s)
         else if truthy (src e) \<and> \<not> entry_loading e then (e, s)
         else if the fileId \<in> pendingImageLoads s then (e, s)
         else
           (let s1 = s\<lparr>pendingImageLoads := insert (the fileId) (pendingImageLoads s)\<rparr>;
                imageUrl = ''/api/fileurl?file_id='' @ encodeURIComponent (the fileId);
                e1 = e\<lparr>src := Some imageUrl, entry_loading := False\<rparr>;
                s2 = setImageCache (the fileId) imageUrl s1
            in (e1, s2\<lparr>pendingImageLoads := pendingImageLoads s2 - {the fileId}\<rparr>)))"

text \<open>\<open>queueImageLoads\<close>: the entries as the calls leave them, in the same order, and the state.\<close>

fun queueImageLoads :: "entry list \<Rightarrow> state \<Rightarrow> entry list \<times> state" where
  "queueImageLoads [] s = ([], s)"
| "queueImageLoads (e # es) s =
     (case (if \<not> truthy (file_id (item e)) then (e, s)
            else if truthy (src e) \<and> \<not> entry_loading e then (e, s)
            else loadEntryImage e s) of
        (e', s') \<Rightarrow> (case queueImageLoads es s' of (es', s'') \<Rightarrow> (e' # es', s'')))"

subsection \<open>Synchronization: mergeTopPage, load, loadMore\<close>

text \<open>\<open>new Map(entries.map((entry) => [entry.id, entry]))\<close>: a later entry with the same id wins.\<close>

definition existingById :: "entry list \<Rightarrow> (string \<rightharpoonup> entry)" where
  "existingById es = map_of (rev (map (\<lambda>e. (entry_id e, e)) es))"

definition mergeTopPage :: "gallery_item list \<Rightarrow> bool \<Rightarrow> bool \<Rightarrow> state \<Rightarrow> state" where
  "mergeTopPage serverItems forceImageRefresh keepExistingTail s =
     (let visibleServerList = filter (\<lambda>e. item_id e \<notin> pendingDeleteIds s) serverItems;
          imageCache = (if forceImageRefresh then Map.empty else image_cache s);
          topEntries = map (\<lambda>e. buildEntryWithCache e (existingById (entries s) (item_id e))
                                  imageCache forceImageRefresh) visibleServerList;
          merged =
            (if keepExistingTail then
               (let topIds = set (map entry_id topEntries);
                    tail = filter (\<lambda>e. entry_id e \<notin> topIds) (entries s)
                in topEntries @ tail)
             else topEntries);
          s1 = setGalleryListCache visibleServerList s
      in case queueImageLoads merged s1 of
           (es, s2) \<Rightarrow> syncSelectionWithEntries (s2\<lparr>entries := es\<rparr>))"

text \<open>
  \<open>load\<close> up to its \<open>await\<close>: the paint from the list cache. It returns \<open>hadEntries\<close> with the state.
\<close>

definition load_begin :: "bool \<Rightarrow> bool \<Rightarrow> state \<Rightarrow> bool \<times> state" where
  "load_begin forceImageRefresh forceListRefresh s =
     (let s0 = s\<lparr>error := []\<rparr>;
          hadEntries = (0 < length (entries s0))
      in if \<not> forceListRefresh then
           (let cachedList = list_cache s0
            in if cachedList \<noteq> None \<and> 0 < length (the cachedList) then
                 (let visibleCachedList =
                        filter (\<lambda>e. item_id e \<notin> pendingDeleteIds s0) (take PAGE_SIZE (the cachedList));
                      imageCache = (if forceImageRefresh then Map.empty else image_cache s0);
                      painted = map (\<lambda>e. buildEntryWithCache e None imageCache forceImageRefresh)
                                  visibleCachedList
                  in case queueImageLoads painted s0 of
                       (es, s1) \<Rightarrow> (hadEntries, s1\<lparr>entries := es, loading := False\<rparr>))
               else (hadEntries, s0\<lparr>loading := True\<rparr>))
         else if \<not> hadEntries then (hadEntries, s0\<lparr>loading := True\<rparr>)
         else (hadEntries, s0))"

text \<open>
  \<open>load\<close> from the point where \<open>fetchGalleryPage\<close> has returned or thrown, on the state of that
  moment (other handlers may have run during the \<open>await\<close>).
\<close>

definition load_response :: "bool \<Rightarrow> bool \<Rightarrow> bool \<Rightarrow> js_error + page \<Rightarrow> state \<Rightarrow> state" where
  "load_response forceImageRefresh forceListRefresh hadEntries result s =
     (case result of
        Inl e \<Rightarrow> s\<lparr>error := String_of_error e, loading := False\<rparr>
      | Inr pg \<Rightarrow>
          (let s1 = mergeTopPage (items pg) forceImageRefresh forceListRefresh s;
               s2 = (if \<not> forceListRefresh \<or> \<not> hadEntries
                     then s1\<lparr>paginationCursor := nextCursor pg, hasMore := page_hasMore pg\<rparr>
                     else if \<not> truthy (paginationCursor s1)
                     then s1\<lparr>paginationCursor := nextCursor pg\<rparr>
                     else s1)
           in s2\<lparr>loading := False\<rparr>))"

text \<open>\<open>load\<close> when nothing else runs during its \<open>await\<close>; \<open>respond\<close> is the network.\<close>

definition load :: "string option \<Rightarrow> (request \<Rightarrow> fetch_result) \<Rightarrow> bool \<Rightarrow> bool \<Rightarrow> state \<Rightarrow> state" where
  "load token respond forceImageRefresh forceListRefresh s =
     (case load_begin forceImageRefresh forceListRefresh s of
        (hadEntries, s1) \<Rightarrow>
          load_response forceImageRefresh forceListRefresh hadEntries
            (fetchGalleryPage PAGE_SIZE (respond (page_request token None PAGE_SIZE))) s1)"

text \<open>The \<open>forEach\<close> of \<open>loadMore\<close>: the entries to append, \<open>existingIds\<close> growing as it goes.\<close>

fun appendedEntries :: "string set \<Rightarrow> (string \<rightharpoonup> string) \<Rightarrow> gallery_item list \<Rightarrow> entry list" where
  "appendedEntries existingIds imageCache [] = []"
| "appendedEntries existingIds imageCache (e # es) =
     (if item_id e \<in> existingIds then appendedEntries existingIds imageCache es
      else buildEntryWithCache e None imageCache False
             # appendedEntries (insert (item_id e) existingIds) imageCache es)"

text \<open>
  \<open>loadMore\<close> up to its \<open>await\<close>: \<open>None\<close> when it returns at once (nothing is fetched and the state
  stays), else the request it sends and the state with \<open>loadingMore\<close> set.
\<close>

definition loadMore_begin :: "string option \<Rightarrow> state \<Rightarrow> (request \<times> state) option" where
  "loadMore_begin token s =
     (if loading s \<or> loadingMore s then None
      else if \<not> hasMore s \<or> \<not> truthy (paginationCursor s) then None
      else Some (page_request token (paginationCursor s) PAGE_SIZE, s\<lparr>loadingMore := True\<rparr>))"

definition loadMore_response :: "js_error + page \<Rightarrow> state \<Rightarrow> state" where
  "loadMore_response result s =
     (case result of
        Inl e \<Rightarrow> s\<lparr>error := String_of_error e, loadingMore := False\<rparr>
      | Inr pg \<Rightarrow>
          (let visibleItems = filter (\<lambda>e. item_id e \<notin> pendingDeleteIds s) (items pg);
               imageCache = image_cache s;
               existingIds = set (map entry_id (entries s));
               appended = appendedEntries existingIds imageCache visibleItems;
               s1 = (if 0 < length appended then
                       (case queueImageLoads appended s of
                          (app, s') \<Rightarrow> syncSelectionWithEntries (s'\<lparr>entries := entries s @ app\<rparr>))
                     else s)
           in s1\<lparr>paginationCursor := nextCursor pg, hasMore := page_hasMore pg, loadingMore := False\<rparr>))"

definition loadMore :: "string option \<Rightarrow> (request \<Rightarrow> fetch_result) \<Rightarrow> state \<Rightarrow> state" where
  "loadMore token respond s =
     (case loadMore_begin token s of
        None \<Rightarrow> s
      | Some (req, s1) \<Rightarrow> loadMore_response (fetchGalleryPage PAGE_SIZE (respond req)) s1)"

subsection \<open>Mutation: optimistic delete and rollback\<close>

definition hideEntryOptimistically :: "string \<Rightarrow> state \<Rightarrow> snapshot option \<times> state" where
  "hideEntryOptimistically entryId s =
     (case findIndex (\<lambda>e. entry_id e = entryId) (entries s) of
        None \<Rightarrow> (None, s)
      | Some index \<Rightarrow>
          (let e = entries s ! index;
               s1 = s\<lparr>entries := take index (entries s) @ drop (Suc index) (entries s)\<rparr>;
               s2 = (if selectedIndex s1 = int index then s1\<lparr>selectedIndex := -1\<rparr>
                     else if selectedIndex s1 > int index then s1\<lparr>selectedIndex := selectedIndex s1 - 1\<rparr>
                     else s1);
               s3 = s2\<lparr>pendingDeleteIds := insert entryId (pendingDeleteIds s2)\<rparr>
           in (Some \<lparr>snap_entry = e, snap_index = index\<rparr>, syncSelectionWithEntries s3)))"

definition restoreHiddenEntry :: "snapshot option \<Rightarrow> state \<Rightarrow> state" where
  "restoreHiddenEntry snap s =
     (case snap of
        None \<Rightarrow> s
      | Some sn \<Rightarrow>
          (let s1 = s\<lparr>pendingDeleteIds := pendingDeleteIds s - {entry_id (snap_entry sn)}\<rparr>
           in if entry_id (snap_entry sn) \<in> set (map entry_id (entries s1)) then s1
              else
                (let insertIndex = min (snap_index sn) (length (entries s1));
                     s2 = s1\<lparr>entries := take insertIndex (entries s1) @ [snap_entry sn]
                                           @ drop insertIndex (entries s1)\<rparr>;
                     s3 = (if selectedIndex s2 \<ge> int insertIndex
                           then s2\<lparr>selectedIndex := selectedIndex s2 + 1\<rparr> else s2)
                 in syncSelectionWithEntries s3)))"

definition finalizeDeleteSuccess :: "entry \<Rightarrow> state \<Rightarrow> state" where
  "finalizeDeleteSuccess e s =
     syncSelectionWithEntries
       (removeEntryFromLocalCache e (s\<lparr>pendingDeleteIds := pendingDeleteIds s - {entry_id e}\<rparr>))"

text \<open>
  \<open>performDelete\<close> up to its \<open>await\<close>: \<open>None\<close> when it returns at once, else the entry, the
  snapshot and the state in which the request is sent.
\<close>

definition performDelete_begin :: "state \<Rightarrow> (entry \<times> snapshot option \<times> state) option" where
  "performDelete_begin s =
     (case pendingDelete s of
        None \<Rightarrow> None
      | Some e \<Rightarrow>
          if entry_id e = [] then None
          else (case hideEntryOptimistically (entry_id e) (s\<lparr>showDeleteModal := False\<rparr>) of
                  (snap, s1) \<Rightarrow> Some (e, snap, s1)))"

text \<open>\<open>performDelete\<close> from the point where \<open>requestDeleteById\<close> has returned or thrown.\<close>

definition performDelete_end ::
  "entry \<Rightarrow> snapshot option \<Rightarrow> js_error + response_body option \<Rightarrow> state \<Rightarrow> state" where
  "performDelete_end e snap outcome s =
     (let s1 = (case outcome of
                  Inr _ \<Rightarrow> showToastMsg ToastDeleted (finalizeDeleteSuccess e s)
                | Inl err \<Rightarrow> showToastMsg (ToastDeleteFailed (message_or_error err))
                              (restoreHiddenEntry snap s))
      in s1\<lparr>pendingDelete := None\<rparr>)"

text \<open>\<open>performDelete\<close> when nothing else runs during its \<open>await\<close>.\<close>

definition performDelete :: "string option \<Rightarrow> (request \<Rightarrow> fetch_result) \<Rightarrow> state \<Rightarrow> state" where
  "performDelete token respond s =
     (case performDelete_begin s of
        None \<Rightarrow> s
      | Some (e, snap, s1) \<Rightarrow>
          performDelete_end e snap
            (requestDeleteById (respond (delete_request token (entry_id e)))) s1)"

text \<open>The \<open>map\<close> of \<open>performBatchDelete\<close> that hides every target, one after the other.\<close>

fun hide_targets :: "entry list \<Rightarrow> state \<Rightarrow> (entry \<times> snapshot option) list \<times> state" where
  "hide_targets [] s = ([], s)"
| "hide_targets (e # es) s =
     (case hideEntryOptimistically (entry_id e) s of
        (snap, s1) \<Rightarrow> (case hide_targets es s1 of (ts, s2) \<Rightarrow> ((e, snap) # ts, s2)))"

text \<open>
  \<open>performBatchDelete\<close> up to its first \<open>await\<close>; \<open>ok\<close> is the answer to the confirmation
  dialog. \<open>None\<close> when it returns before hiding anything (the state is then the second
  component), else the targets.
\<close>

definition performBatchDelete_begin ::
  "bool \<Rightarrow> state \<Rightarrow> (entry \<times> snapshot option) list option \<times> state" where
  "performBatchDelete_begin ok s =
     (let targetEntries = filter (\<lambda>e. entry_id e \<in> set (selectedEntryIds s)) (entries s)
      in if length targetEntries = 0 then (None, showToastMsg ToastSelectFirst s)
         else if \<not> ok then (None, s)
         else (case hide_targets targetEntries s of
                 (targets, s1) \<Rightarrow> (Some targets, s1\<lparr>selectedEntryIds := [], batchMode := False\<rparr>)))"

text \<open>One turn of the \<open>for\<close> loop, from the point where the request has returned or thrown.\<close>

definition batch_step ::
  "entry \<times> snapshot option \<Rightarrow> js_error + response_body option \<Rightarrow> state \<times> nat \<times> nat
     \<Rightarrow> state \<times> nat \<times> nat" where
  "batch_step target outcome acc =
     (case acc of
        (s, successCount, failCount) \<Rightarrow>
          (case outcome of
             Inr _ \<Rightarrow> (finalizeDeleteSuccess (fst target) s, successCount + 1, failCount)
           | Inl _ \<Rightarrow> (restoreHiddenEntry (snd target) s, successCount, failCount + 1)))"

text \<open>
  The loop when nothing else runs during its \<open>await\<close>s: the requests are sent one after the
  other, each after the one before has been answered and handled.
\<close>

fun batch_loop ::
  "string option \<Rightarrow> (request \<Rightarrow> fetch_result) \<Rightarrow> (entry \<times> snapshot option) list
     \<Rightarrow> state \<times> nat \<times> nat \<Rightarrow> state \<times> nat \<times> nat" where
  "batch_loop token respond [] acc = acc"
| "batch_loop token respond (t # ts) acc =
     batch_loop token respond ts
       (batch_step t (requestDeleteById (respond (delete_request token (entry_id (fst t))))) acc)"

definition batch_report :: "state \<times> nat \<times> nat \<Rightarrow> state" where
  "batch_report acc =
     (case acc of
        (s, successCount, failCount) \<Rightarrow>
          if failCount = 0 then showToastMsg (ToastBatchDeleted successCount) s
          else showToastMsg (ToastBatchPartial successCount failCount) s)"

definition performBatchDelete ::
  "string option \<Rightarrow> (request \<Rightarrow> fetch_result) \<Rightarrow> bool \<Rightarrow> state \<Rightarrow> state" where
  "performBatchDelete token respond ok s =
     (case performBatchDelete_begin ok s of
        (None, s1) \<Rightarrow> s1
      | (Some targets, s1) \<Rightarrow> batch_report (batch_loop token respond targets (s1, 0, 0)))"

text \<open>Whether the delete request for an entry is answered with success.\<close>

definition delete_succeeds :: "string option \<Rightarrow> (request \<Rightarrow> fetch_result) \<Rightarrow> entry \<Rightarrow> bool" where
  "delete_succeeds token respond e =
     (case requestDeleteById (respond (delete_request token (entry_id e))) of
        Inr _ \<Rightarrow> True | Inl _ \<Rightarrow> False)"

text \<open>\<open>clearImageCache\<close> up to its call of \<open>load(true, false)\<close>; \<open>ok\<close> answers the dialog.\<close>

definition clearImageCache_begin :: "bool \<Rightarrow> state \<Rightarrow> state option" where
  "clearImageCache_begin ok s =
     (if \<not> ok then None
      else Some (s\<lparr>image_cache := Map.empty,
                   entries := map (\<lambda>e. e\<lparr>src := None, entry_loading := truthy (file_id (item e))\<rparr>)
                                (entries s),
                   toastMessage := Some ToastCacheCleared, showToast := True\<rparr>))"

section \<open>Server: the token helpers of server/index.js\<close>

text \<open>
  Here a JavaScript string is the list of its UTF-16 code units, since \<open>btoa\<close> tells code
  units above 255 apart; a byte array is a list of numbers below 256.
\<close>

datatype jwt_error = InvalidCharacterError

text \<open>Base64 of a list of bytes, three bytes to four characters, padded with \<open>=\<close>.\<close>

definition b64_char :: "nat \<Rightarrow> nat" where
  "b64_char n =
     ascii ''ABCDEFGHIJKLMNOPQRSTUVWXYZabcdefghijklmnopqrstuvwxyz0123456789+/'' ! (n mod 64)"

fun b64_encode :: "nat list \<Rightarrow> jstring" where
  "b64_encode [] = []"
| "b64_encode [a] = [b64_char (a div 4), b64_char ((a mod 4) * 16), 61, 61]"
| "b64_encode [a, b] =
     [b64_char (a div 4), b64_char ((a mod 4) * 16 + b div 16), b64_char ((b mod 16) * 4), 61]"
| "b64_encode (a # b # c # rest) =
     [b64_char (a div 4), b64_char ((a mod 4) * 16 + b div 16),
      b64_char ((b mod 16) * 4 + c div 64), b64_char (c mod 64)] @ b64_encode rest"

text \<open>\<open>btoa\<close> throws on a string with a code unit above 255, and encodes the others as bytes.\<close>

definition btoa :: "jstring \<Rightarrow> jwt_error + jstring" where
  "btoa s = (if list_ex (\<lambda>u. 255 < u) s then Inl InvalidCharacterError else Inr (b64_encode s))"

text \<open>
  \<open>base64UrlEncode\<close>: for a string \<open>btoa(data)\<close>, for a byte array
  \<open>btoa(String.fromCharCode(...data))\<close>, which is \<open>btoa\<close> of the bytes as code units; then \<open>+\<close>
  becomes \<open>-\<close>, \<open>/\<close> becomes \<open>_\<close> and the \<open>=\<close> at the end are dropped.
\<close>

definition base64UrlEncode :: "jstring \<Rightarrow> jwt_error + jstring" where
  "base64UrlEncode data =
     (case btoa data of
        Inl e \<Rightarrow> Inl e
      | Inr str \<Rightarrow>
          Inr (rev (dropWhile (\<lambda>u. u = 61)
                 (rev (map (\<lambda>u. if u = 43 then 45 else if u = 47 then 95 else u) str)))))"

text \<open>
  The objects that are signed: string keys (none of them an array index, so that they keep
  their order) with string or integer values (integers below \<open>10^21\<close> in size, which
  \<open>JSON.stringify\<close> prints in full).
\<close>

datatype json_value = JString jstring | JNumber int

type_synonym json_object = "(jstring \<times> json_value) list"

text \<open>\<open>{...obj, k: v}\<close>: an existing key keeps its place and takes the new value.\<close>

fun obj_put :: "jstring \<Rightarrow> json_value \<Rightarrow> json_object \<Rightarrow> json_object" where
  "obj_put k v [] = [(k, v)]"
| "obj_put k v ((k', v') # obj) = (if k' = k then (k, v) # obj else (k', v') # obj_put k v obj)"

definition hex4 :: "nat \<Rightarrow> jstring" where
  "hex4 u = map (\<lambda>d. ascii ''0123456789abcdef'' ! (d mod 16)) [u div 4096, u div 256, u div 16, u]"

text \<open>
  One code unit inside a quoted JSON string (92 is the backslash, 34 the double quote): the
  short escapes for backspace, tab, line feed, form feed and carriage return, the quote and
  the backslash escaped, the other control characters as \<open>u\<close> escapes.
\<close>

definition json_escape :: "nat \<Rightarrow> jstring" where
  "json_escape u =
     (if u = 8 then [92, 98] else if u = 9 then [92, 116] else if u = 10 then [92, 110]
      else if u = 12 then [92, 102] else if u = 13 then [92, 114]
      else if u = 34 then [92, 34] else if u = 92 then [92, 92]
      else if u < 32 then [92, 117] @ hex4 u
      else [u])"

text \<open>
  The body of a quoted string: a surrogate code unit without its partner is written as a
  backslash, \<open>u\<close> and its four hexadecimal digits.
\<close>

fun json_quote_units :: "jstring \<Rightarrow> jstring" where
  "json_quote_units [] = []"
| "json_quote_units [u] =
     (if 55296 \<le> u \<and> u \<le> 57343 then [92, 117] @ hex4 u else json_escape u)"
| "json_quote_units (u # v # us) =
     (if 55296 \<le> u \<and> u \<le> 56319 \<and> 56320 \<le> v \<and> v \<le> 57343 then u # v # json_quote_units us
      else if 55296 \<le> u \<and> u \<le> 57343 then [92, 117] @ hex4 u @ json_quote_units (v # us)
      else json_escape u @ json_quote_units (v # us))"

definition json_quote :: "jstring \<Rightarrow> jstring" where
  "json_quote s = [34] @ json_quote_units s @ [34]"

text \<open>The decimal digits of an integer that is not negative.\<close>

function decimal_digits :: "int \<Rightarrow> string" where
  "decimal_digits n =
     (if n < 10 then [char_of (nat (48 + n))]
      else decimal_digits (n div 10) @ [char_of (nat (48 + n mod 10))])"
  by pat_completeness auto
termination
  by (relation "measure nat") auto

declare decimal_digits.simps [simp del]

definition json_value_text :: "json_value \<Rightarrow> jstring" where
  "json_value_text v =
     (case v of
        JString s \<Rightarrow> json_quote s
      | JNumber n \<Rightarrow> (if n < 0 then [45] @ ascii (decimal_digits (- n))
                     else ascii (decimal_digits n)))"

fun json_members :: "json_object \<Rightarrow> jstring" where
  "json_members [] = []"
| "json_members [(k, v)] = json_quote k @ [58] @ json_value_text v"
| "json_members ((k, v) # m # ms) =
     json_quote k @ [58] @ json_value_text v @ [44] @ json_members (m # ms)"

definition JSON_stringify :: "json_object \<Rightarrow> jstring" where
  "JSON_stringify obj = [123] @ json_members obj @ [125]"

text \<open>
  \<open>jwtSign\<close>. \<open>hmac secret text\<close> stands for the bytes that \<open>crypto.subtle.sign\<close> returns for the
  HMAC-SHA-256 key imported from the UTF-8 bytes of \<open>secret\<close> and the UTF-8 bytes of \<open>text\<close>;
  \<open>now_ms\<close> is \<open>Date.now()\<close>.
\<close>

definition jwtSign ::
  "(jstring \<Rightarrow> jstring \<Rightarrow> nat list) \<Rightarrow> json_object \<Rightarrow> jstring \<Rightarrow> int \<Rightarrow> int
     \<Rightarrow> jwt_error + jstring" where
  "jwtSign hmac payload secret expiresInSeconds now_ms =
     (let header = [(ascii ''alg'', JString (ascii ''HS256'')), (ascii ''typ'', JString (ascii ''JWT''))];
          now = now_ms div 1000;
          fullPayload = obj_put (ascii ''exp'') (JNumber (now + expiresInSeconds))
                          (obj_put (ascii ''iat'') (JNumber now) payload)
      in case base64UrlEncode (JSON_stringify header) of
           Inl e \<Rightarrow> Inl e
         | Inr headerB64 \<Rightarrow>
             (case base64UrlEncode (JSON_stringify fullPayload) of
                Inl e \<Rightarrow> Inl e
              | Inr payloadB64 \<Rightarrow>
                  (let signingInput = headerB64 @ [46] @ payloadB64
                   in case base64UrlEncode (hmac secret signingInput) of
                        Inl e \<Rightarrow> Inl e
                      | Inr sig \<Rightarrow> Inr (signingInput @ [46] @ sig))))"

text \<open>The default of \<open>expiresInSeconds\<close>, and what \<open>handleLogin\<close> signs for a user name.\<close>

definition default_expiry :: int where
  "default_expiry = 365 * 24 * 3600"

definition login_token ::
  "(jstring \<Rightarrow> jstring \<Rightarrow> nat list) \<Rightarrow> jstring \<Rightarrow> jstring \<Rightarrow> int \<Rightarrow> jwt_error + jstring" where
  "login_token hmac username SECRET now_ms =
     jwtSign hmac [(ascii ''user'', JString username)] SECRET default_expiry now_ms"

section \<open>The pagination contract end to end\<close>

text \<open>
  \<open>fetchPage(cursor, limit)\<close> of the pagination contract: the client's \<open>fetchGalleryPage\<close>
  answered by the server's paginated read (an authenticated request, the database reachable).
  As in \<open>handleGallery\<close>, the server reads the client's two parameters as JavaScript strings
  and the driver receives the text of the trimmed cursor.
\<close>

definition fetchPage ::
  "(string \<Rightarrow> string + 'i::linorder) \<Rightarrow> ('i \<Rightarrow> string) \<Rightarrow> 'i doc list
     \<Rightarrow> string option \<Rightarrow> nat \<Rightarrow> js_error + page" where
  "fetchPage ObjectId toString coll cursor limit =
     (let req = page_request None cursor limit
      in fetchGalleryPage limit
           (reply_of (handleGallery_get (\<lambda>u. ObjectId (text_of u)) toString coll
                        (map_option ascii (limit_param req)) (map_option ascii (cursor_param req)))))"

text \<open>
  A store for concrete scenarios: ids are one-character strings ordered as characters, every
  string is accepted as an id, and documents are stored oldest first.
\<close>

definition scenario_doc :: "string \<Rightarrow> string doc" where
  "scenario_doc i =
     \<lparr>doc_id = i, doc_prompt = ''prompt '' @ i, doc_metadata = None,
      doc_telegram = Some \<lparr>tg_chat_id = None, tg_file_id = Some (''file'' @ i)\<rparr>,
      doc_timestamp = 0\<rparr>"

definition scenario_store :: "string doc list" where
  "scenario_store = map scenario_doc [''1'', ''2'', ''3'', ''4'', ''5'']"


section \<open>States for concrete scenarios\<close>

text \<open>The component as it is mounted: the initial values of its refs, nothing in \<open>localStorage\<close>.\<close>

definition initial_state :: state where
  "initial_state =
     \<lparr>entries = [], loading = False, error = [], selectedIndex = -1, loadingMore = False,
      hasMore = True, paginationCursor = None, pendingImageLoads = {},
      showDeleteModal = False, pendingDelete = None, toastMessage = None, showToast = False,
      batchMode = False, selectedEntryIds = [], pendingDeleteIds = {},
      list_cache = None, image_cache = Map.empty\<rparr>"

definition scenario_item :: "string \<Rightarrow> gallery_item" where
  "scenario_item i = toGalleryItem (\<lambda>s. s) (scenario_doc i)"

text \<open>An entry whose image has been resolved.\<close>

definition scenario_entry :: "string \<Rightarrow> entry" where
  "scenario_entry i =
     \<lparr>item = scenario_item i, src = Some (''/api/fileurl?file_id=file'' @ i), entry_loading = False\<rparr>"

text \<open>
  A network for concrete scenarios: every request is answered by \<open>handleGallery\<close> over the
  given collection, every token is accepted and every string is an id.
\<close>

definition scenario_network :: "string doc list \<Rightarrow> request \<Rightarrow> fetch_result" where
  "scenario_network coll req =
     reply_of (fst (handleGallery (\<lambda>t k. True) Inr (\<lambda>s. s)
                      \<lparr>JWT_SECRET = None, MONGO_URI = Some ''mongodb://db''\<rparr> req coll))"

text \<open>A network that is down: \<open>fetch\<close> rejects.\<close>

definition offline_network :: "request \<Rightarrow> fetch_result" where
  "offline_network req = Rejected (TypeError ''Failed to fetch'')"

text \<open>
  The component after it was mounted and its first \<open>load()\<close> was answered from a collection
  of the documents 3, 4, 5: the visible list is 5, 4, 3, nothing is pending.
\<close>

definition scenario_state :: state where
  "scenario_state =
     load (Some ''t'') (scenario_network (map scenario_doc [''3'', ''4'', ''5''])) False False
       initial_state"

text \<open>That list with the delete dialog open on entry 4.\<close>

definition delete_dialog_state :: state where
  "delete_dialog_state = openDeleteModal (scenario_entry ''4'') scenario_state"

text \<open>That list in batch mode with 5 and 4 selected.\<close>

definition batch_selection_state :: state where
  "batch_selection_state =
     toggleEntrySelection ''4'' (toggleEntrySelection ''5'' (toggleBatchMode scenario_state))"

text \<open>
  That list after a background refresh whose first page held 5 and 4 only (entry 3 stays as
  the tail and the list cache holds 5, 4), then batch mode with entry 3 selected, then the
  button that clears the image cache, up to its call of \<open>load(true, false)\<close>.
\<close>

definition stale_tail_state :: state where
  "stale_tail_state =
     the (clearImageCache_begin True
            (toggleEntrySelection ''3''
               (toggleBatchMode
                  (load (Some ''t'') (scenario_network (map scenario_doc [''4'', ''5'']))
                     False True scenario_state))))"

section \<open>Invariants\<close>

text \<open>No entry of the visible list has an id that is pending deletion.\<close>

definition no_pending_visible :: "state \<Rightarrow> bool" where
  "no_pending_visible s = (set (map entry_id (entries s)) \<inter> pendingDeleteIds s = {})"

text \<open>Every selected id is the id of an entry of the visible list.\<close>

definition selection_synced :: "state \<Rightarrow> bool" where
  "selection_synced s = (set (selectedEntryIds s) \<subseteq> set (map entry_id (entries s)))"

text \<open>
  The invariant of the list: ids are unique in the visible list and in the list cache, and no
  visible entry is pending deletion.
\<close>

definition list_invariant :: "state \<Rightarrow> bool" where
  "list_invariant s =
     (distinct (map entry_id (entries s)) \<and> no_pending_visible s
      \<and> distinct (map item_id (case list_cache s of None \<Rightarrow> [] | Some l \<Rightarrow> l)))"

text \<open>
  The states the component can be in: it is mounted with whatever an earlier session left in
  \<open>localStorage\<close>, and then the handlers run in any order, each from one \<open>await\<close> to the next
  (the second half of a handler is allowed on any entry and snapshot, which admits more states
  than the component has). A page that arrives has the ids of its items unique, as the
  documents of the collection have.
\<close>

inductive reachable :: "state \<Rightarrow> bool" where
  mounted:
    "distinct (map item_id (case lc of None \<Rightarrow> [] | Some l \<Rightarrow> l))
       \<Longrightarrow> reachable (initial_state\<lparr>list_cache := lc, image_cache := ic\<rparr>)"
| load_begins:
    "reachable s \<Longrightarrow> reachable (snd (load_begin forceImageRefresh forceListRefresh s))"
| load_responds:
    "reachable s \<Longrightarrow> distinct (map item_id (items pg))
       \<Longrightarrow> reachable (load_response forceImageRefresh forceListRefresh hadEntries (Inr pg) s)"
| load_fails:
    "reachable s
       \<Longrightarrow> reachable (load_response forceImageRefresh forceListRefresh hadEntries (Inl err) s)"
| loadMore_begins:
    "reachable s \<Longrightarrow> loadMore_begin token s = Some (req, s') \<Longrightarrow> reachable s'"
| loadMore_responds:
    "reachable s \<Longrightarrow> reachable (loadMore_response result s)"
| dialog_opens:
    "reachable s \<Longrightarrow> reachable (openDeleteModal e s)"
| dialog_closes:
    "reachable s \<Longrightarrow> reachable (cancelDelete s)"
| delete_begins:
    "reachable s \<Longrightarrow> performDelete_begin s = Some (e, snap, s') \<Longrightarrow> reachable s'"
| delete_ends:
    "reachable s \<Longrightarrow> reachable (performDelete_end e snap outcome s)"
| batch_begins:
    "reachable s \<Longrightarrow> reachable (snd (performBatchDelete_begin ok s))"
| batch_steps:
    "reachable s \<Longrightarrow> reachable (fst (batch_step target outcome (s, successCount, failCount)))"
| batch_reports:
    "reachable s \<Longrightarrow> reachable (batch_report (s, successCount, failCount))"
| batch_mode_toggles:
    "reachable s \<Longrightarrow> reachable (toggleBatchMode s)"
| selection_toggles:
    "reachable s \<Longrightarrow> reachable (toggleEntrySelection entryId s)"
| selection_clears:
    "reachable s \<Longrightarrow> reachable (clearBatchSelection s)"
| select_all_toggles:
    "reachable s \<Longrightarrow> reachable (toggleSelectAllEntries s)"
| image_cache_clears:
    "reachable s \<Longrightarrow> clearImageCache_begin True s = Some s' \<Longrightarrow> reachable s'"

section \<open>Properties of the server\<close>

subsection \<open>Reading the query parameters\<close>

text \<open>The test for white space, with numbers that evaluate in binary.\<close>

lemma js_ws_code [code]:
  "js_ws u = (int u \<in> set [9, 10, 11, 12, 13, 32, 160, 5760, 8232, 8233, 8239, 8287, 12288, 65279]
              \<or> (8192 \<le> int u \<and> int u \<le> 8202))"
  by (simp add: js_ws_def)

text \<open>A byte string read as a JavaScript string keeps its text.\<close>

lemma text_of_ascii: "text_of (ascii s) = s"
  by (simp add: text_of_def ascii_def map_idI)

lemma digit_unit:
  "d < 10 \<Longrightarrow> is_decimal_digit (of_char (char_of (48 + d :: nat)))
     \<and> digit_val (of_char (char_of (48 + d))) = int d"
  by (simp add: is_decimal_digit_def digit_val_def)


lemma string_of_nat_digits:
  "list_all is_decimal_digit (ascii (string_of_nat n)) \<and> ascii (string_of_nat n) \<noteq> []"
proof (induction n rule: string_of_nat.induct)
  case (1 n)
  show ?case
  proof (cases "n < 10")
    case True
    then show ?thesis using digit_unit [of n] by (simp add: string_of_nat.simps [of n] ascii_def)
  next
    case False
    have "n mod 10 < 10" by simp
    then have "is_decimal_digit (of_char (char_of (48 + n mod 10)))" using digit_unit by blast
    with False 1 show ?thesis
      by (simp add: string_of_nat.simps [of n] ascii_def)
  qed
qed















subsection \<open>The pagination scenario\<close>

text \<open>
  C6. With the store holding the entries with ids 5, 4, 3, 2, 1 and a page size of 2:
  \<open>fetchPage(null, 2)\<close> returns the items 5, 4 with \<open>hasMore\<close> and next cursor 4;
  \<open>fetchPage(4, 2)\<close> returns 3, 2 with \<open>hasMore\<close> and next cursor 2; \<open>fetchPage(2, 2)\<close> returns 1
  with no more pages and no cursor.
\<close>

theorem keyset_pagination_scenario:
  "(case fetchPage Inr (\<lambda>s. s) scenario_store None 2 of
      Inr p \<Rightarrow> map item_id (items p) = [''5'', ''4''] \<and> page_hasMore p \<and> nextCursor p = Some ''4''
    | Inl _ \<Rightarrow> False)
   \<and> (case fetchPage Inr (\<lambda>s. s) scenario_store (Some ''4'') 2 of
      Inr p \<Rightarrow> map item_id (items p) = [''3'', ''2''] \<and> page_hasMore p \<and> nextCursor p = Some ''2''
    | Inl _ \<Rightarrow> False)
   \<and> (case fetchPage Inr (\<lambda>s. s) scenario_store (Some ''2'') 2 of
      Inr p \<Rightarrow> map item_id (items p) = [''1''] \<and> \<not> page_hasMore p \<and> nextCursor p = None
    | Inl _ \<Rightarrow> False)"
  by code_simp

subsection \<open>Validation of the pagination parameters\<close>





section \<open>Properties of the synchronization engine\<close>

subsection \<open>What the image loads and the merges leave alone\<close>

lemma item_buildEntryWithCache [simp]: "item (buildEntryWithCache e ex ic f) = e"
  by (simp add: buildEntryWithCache_def Let_def)

lemma entry_id_buildEntryWithCache [simp]: "entry_id (buildEntryWithCache e ex ic f) = item_id e"
  by (simp add: entry_id_def)

lemma loadEntryImage_item: "item (fst (loadEntryImage e s)) = item e"
  by (simp add: loadEntryImage_def Let_def)

lemma loadEntryImage_frame:
  "snd (loadEntryImage e s)
     = s\<lparr>pendingImageLoads := pendingImageLoads (snd (loadEntryImage e s)),
         image_cache := image_cache (snd (loadEntryImage e s))\<rparr>"
  by (simp add: loadEntryImage_def Let_def setImageCache_def)

lemma loadEntryImage_state:
  "\<exists>ic pl. snd (loadEntryImage e s) = s\<lparr>pendingImageLoads := pl, image_cache := ic\<rparr>"
  using loadEntryImage_frame by blast

lemma queueImageLoads_items: "map item (fst (queueImageLoads es s)) = map item es"
proof (induction es arbitrary: s)
  case Nil
  then show ?case by simp
next
  case (Cons e es)
  show ?case
    using Cons.IH loadEntryImage_item [of e s]
    by (auto simp: split_beta)
qed

lemma queueImageLoads_state:
  "\<exists>ic pl. snd (queueImageLoads es s) = s\<lparr>pendingImageLoads := pl, image_cache := ic\<rparr>"
proof (induction es arbitrary: s)
  case Nil
  have "s = s\<lparr>pendingImageLoads := pendingImageLoads s, image_cache := image_cache s\<rparr>" by simp
  then show ?case by (metis queueImageLoads.simps(1) snd_conv)
next
  case (Cons e es)
  define s1 where "s1 = snd (if \<not> truthy (file_id (item e)) then (e, s)
            else if truthy (src e) \<and> \<not> entry_loading e then (e, s)
            else loadEntryImage e s)"
  have "\<exists>ic pl. s1 = s\<lparr>pendingImageLoads := pl, image_cache := ic\<rparr>"
  proof (cases "\<not> truthy (file_id (item e)) \<or> (truthy (src e) \<and> \<not> entry_loading e)")
    case True
    then have "s1 = s" by (auto simp: s1_def)
    also have "s = s\<lparr>pendingImageLoads := pendingImageLoads s, image_cache := image_cache s\<rparr>" by simp
    finally show ?thesis by blast
  next
    case False
    then have "s1 = snd (loadEntryImage e s)" by (auto simp: s1_def)
    then show ?thesis using loadEntryImage_state by simp
  qed
  then obtain ic pl where s1: "s1 = s\<lparr>pendingImageLoads := pl, image_cache := ic\<rparr>" by blast
  from Cons.IH [of s1] obtain ic' pl' where
    "snd (queueImageLoads es s1) = s1\<lparr>pendingImageLoads := pl', image_cache := ic'\<rparr>" by blast
  then have "snd (queueImageLoads es s1) = s\<lparr>pendingImageLoads := pl', image_cache := ic'\<rparr>"
    by (simp add: s1)
  moreover have "snd (queueImageLoads (e # es) s) = snd (queueImageLoads es s1)"
    by (simp add: s1_def split_beta)
  ultimately show ?case by metis
qed

lemma queueImageLoads_ids: "map entry_id (fst (queueImageLoads es s)) = map entry_id es"
proof -
  have "map entry_id xs = map item_id (map item xs)" for xs
    by (simp add: entry_id_def)
  then show ?thesis by (metis queueImageLoads_items)
qed


lemma queueImageLoads_pending [simp]:
  "pendingDeleteIds (snd (queueImageLoads es s)) = pendingDeleteIds s"
  "paginationCursor (snd (queueImageLoads es s)) = paginationCursor s"
  "hasMore (snd (queueImageLoads es s)) = hasMore s"
  "selectedEntryIds (snd (queueImageLoads es s)) = selectedEntryIds s"
  "entries (snd (queueImageLoads es s)) = entries s"
  "loading (snd (queueImageLoads es s)) = loading s"
  "loadingMore (snd (queueImageLoads es s)) = loadingMore s"
proof -
  obtain ic pl where "snd (queueImageLoads es s) = s\<lparr>pendingImageLoads := pl, image_cache := ic\<rparr>"
    using queueImageLoads_state by blast
  then show "pendingDeleteIds (snd (queueImageLoads es s)) = pendingDeleteIds s"
  "paginationCursor (snd (queueImageLoads es s)) = paginationCursor s"
  "hasMore (snd (queueImageLoads es s)) = hasMore s"
  "selectedEntryIds (snd (queueImageLoads es s)) = selectedEntryIds s"
  "entries (snd (queueImageLoads es s)) = entries s"
  "loading (snd (queueImageLoads es s)) = loading s"
  "loadingMore (snd (queueImageLoads es s)) = loadingMore s"
    by simp_all
qed

lemma mergeTopPage_unfold:
  "mergeTopPage its fi keep s =
     (let visible = filter (\<lambda>e. item_id e \<notin> pendingDeleteIds s) its;
          top = map (\<lambda>e. buildEntryWithCache e (existingById (entries s) (item_id e))
                          (if fi then Map.empty else image_cache s) fi) visible;
          merged = (if keep then top @ filter (\<lambda>e. entry_id e \<notin> set (map entry_id top)) (entries s)
                    else top);
          q = queueImageLoads merged (setGalleryListCache visible s)
      in syncSelectionWithEntries ((snd q)\<lparr>entries := fst q\<rparr>))"
  by (simp add: mergeTopPage_def Let_def split_beta)

lemma mergeTopPage_items:
  "map item (entries (mergeTopPage its fi keep s)) =
     filter (\<lambda>e. item_id e \<notin> pendingDeleteIds s) its
       @ (if keep
          then map item (filter (\<lambda>e. entry_id e \<notin> set (map item_id
                            (filter (\<lambda>e. item_id e \<notin> pendingDeleteIds s) its))) (entries s))
          else [])"
  by (simp add: mergeTopPage_unfold Let_def syncSelectionWithEntries_def queueImageLoads_items
        comp_def)

lemma mergeTopPage_fields:
  "pendingDeleteIds (mergeTopPage its fi keep s) = pendingDeleteIds s"
  "paginationCursor (mergeTopPage its fi keep s) = paginationCursor s"
  "hasMore (mergeTopPage its fi keep s) = hasMore s"
  "loadingMore (mergeTopPage its fi keep s) = loadingMore s"
  by (simp_all add: mergeTopPage_unfold Let_def syncSelectionWithEntries_def setGalleryListCache_def)

lemma appendedEntries_ids_set:
  "set (map entry_id (appendedEntries ex ic its)) = set (map item_id its) - ex"
  by (induction its arbitrary: ex) auto

lemma appendedEntries_distinct: "distinct (map entry_id (appendedEntries ex ic its))"
proof (induction its arbitrary: ex)
  case Nil
  then show ?case by simp
next
  case (Cons e its)
  have "item_id e \<notin> set (map entry_id (appendedEntries (insert (item_id e) ex) ic its))"
    unfolding appendedEntries_ids_set by simp
  with Cons show ?case by simp
qed

lemma loadMore_response_entries:
  "entries (loadMore_response (Inr pg) s) =
     entries s @ fst (queueImageLoads
       (appendedEntries (set (map entry_id (entries s))) (image_cache s)
          (filter (\<lambda>e. item_id e \<notin> pendingDeleteIds s) (items pg))) s)"
  by (simp add: loadMore_response_def Let_def split_beta syncSelectionWithEntries_def)

lemma loadMore_response_fields:
  "paginationCursor (loadMore_response (Inr pg) s) = nextCursor pg"
  "hasMore (loadMore_response (Inr pg) s) = page_hasMore pg"
  "loadingMore (loadMore_response (Inr pg) s) = False"
  "pendingDeleteIds (loadMore_response (Inr pg) s) = pendingDeleteIds s"
  by (simp_all add: loadMore_response_def Let_def split_beta syncSelectionWithEntries_def)


lemma load_begin_items:
  "map item (entries (snd (load_begin fi fl s))) =
     (if \<not> fl \<and> list_cache s \<noteq> None \<and> the (list_cache s) \<noteq> []
      then filter (\<lambda>e. item_id e \<notin> pendingDeleteIds s) (take PAGE_SIZE (the (list_cache s)))
      else map item (entries s))"
  by (simp add: load_begin_def Let_def split_beta queueImageLoads_items comp_def)

lemma load_begin_fields:
  "pendingDeleteIds (snd (load_begin fi fl s)) = pendingDeleteIds s"
  "paginationCursor (snd (load_begin fi fl s)) = paginationCursor s"
  "hasMore (snd (load_begin fi fl s)) = hasMore s"
  "fst (load_begin fi fl s) = (entries s \<noteq> [])"
  by (simp_all add: load_begin_def Let_def split_beta)

lemma load_response_items:
  "map item (entries (load_response fi fl had (Inr pg) s)) = map item (entries (mergeTopPage (items pg) fi fl s))"
  "pendingDeleteIds (load_response fi fl had (Inr pg) s) = pendingDeleteIds s"
  by (simp_all add: load_response_def Let_def mergeTopPage_fields)

lemma load_response_error:
  "entries (load_response fi fl had (Inl e) s) = entries s"
  "pendingDeleteIds (load_response fi fl had (Inl e) s) = pendingDeleteIds s"
  by (simp_all add: load_response_def)

lemma no_pending_visible_items:
  "no_pending_visible s \<longleftrightarrow> item_id ` set (map item (entries s)) \<inter> pendingDeleteIds s = {}"
  by (simp add: no_pending_visible_def entry_id_def image_image)

lemma no_pending_mergeTopPage:
  "no_pending_visible (mergeTopPage its fi False s)"
  "no_pending_visible s \<Longrightarrow> no_pending_visible (mergeTopPage its fi keep s)"
  unfolding no_pending_visible_items mergeTopPage_items mergeTopPage_fields
  by auto

lemma no_pending_load_begin:
  "\<not> fl \<and> list_cache s \<noteq> None \<and> the (list_cache s) \<noteq> [] \<Longrightarrow> no_pending_visible (snd (load_begin fi fl s))"
  "no_pending_visible s \<Longrightarrow> no_pending_visible (snd (load_begin fi fl s))"
  unfolding no_pending_visible_items load_begin_items load_begin_fields
  by auto

lemma no_pending_load_response:
  assumes "no_pending_visible s"
  shows "no_pending_visible (load_response fi fl had result s)"
proof (cases result)
  case (Inl e)
  with assms show ?thesis by (simp add: no_pending_visible_def load_response_error)
next
  case (Inr pg)
  from no_pending_mergeTopPage(2) [OF assms, of "items pg" fi fl]
  show ?thesis unfolding Inr no_pending_visible_items load_response_items mergeTopPage_fields .
qed

lemma no_pending_loadMore_response:
  assumes "no_pending_visible s"
  shows "no_pending_visible (loadMore_response result s)"
proof (cases result)
  case (Inl e)
  with assms show ?thesis by (simp add: no_pending_visible_def loadMore_response_def)
next
  case (Inr pg)
  have "set (map entry_id (entries (loadMore_response (Inr pg) s)))
          = set (map entry_id (entries s))
            \<union> (set (map item_id (filter (\<lambda>e. item_id e \<notin> pendingDeleteIds s) (items pg)))
                 - set (map entry_id (entries s)))"
    unfolding loadMore_response_entries map_append set_append queueImageLoads_ids
      appendedEntries_ids_set ..
  then show ?thesis
    using assms unfolding Inr no_pending_visible_def loadMore_response_fields
    by auto
qed

lemma no_pending_load:
  assumes "no_pending_visible s"
  shows "no_pending_visible (load token respond fi fl s)"
  using no_pending_load_response [OF no_pending_load_begin(2) [OF assms]]
  by (simp add: load_def split_beta)

lemma no_pending_loadMore:
  assumes "no_pending_visible s"
  shows "no_pending_visible (loadMore token respond s)"
proof (cases "loadMore_begin token s")
  case None
  with assms show ?thesis by (simp add: loadMore_def)
next
  case (Some a)
  then have "a = (page_request token (paginationCursor s) PAGE_SIZE, s\<lparr>loadingMore := True\<rparr>)"
    by (auto simp: loadMore_begin_def split: if_splits)
  moreover have "no_pending_visible (s\<lparr>loadingMore := True\<rparr>)"
    using assms by (simp add: no_pending_visible_def)
  ultimately show ?thesis using Some no_pending_loadMore_response
    by (simp add: loadMore_def)
qed

subsection \<open>The scenario state\<close>

lemma scenario_state_entries:
  "entries scenario_state = map scenario_entry [''5'', ''4'', ''3'']"
  by code_simp

lemma scenario_state_ids: "map entry_id (entries scenario_state) = [''5'', ''4'', ''3'']"
  by code_simp

lemma scenario_state_flags:
  "\<not> loading scenario_state" "\<not> loadingMore scenario_state"
  by code_simp+

lemma scenario_state_pending: "pendingDeleteIds scenario_state = {}"
  by (simp add: scenario_state_def load_def split_beta load_response_def Let_def
        mergeTopPage_fields load_begin_fields initial_state_def split: sum.splits)

subsection \<open>The scenario states can be reached\<close>

lemma reachable_load:
  assumes "reachable s"
    and "fetchGalleryPage PAGE_SIZE (respond (page_request token None PAGE_SIZE)) = Inr pg"
    and "distinct (map item_id (items pg))"
  shows "reachable (load token respond fi fl s)"
proof -
  have "reachable (snd (load_begin fi fl s))"
    using assms(1) by (rule reachable.load_begins)
  then have "reachable (load_response fi fl (fst (load_begin fi fl s)) (Inr pg) (snd (load_begin fi fl s)))"
    using assms(3) by (rule reachable.load_responds)
  then show ?thesis by (simp add: load_def split_beta assms(2))
qed

lemma reachable_load_offline:
  assumes "reachable s"
  shows "reachable (load token offline_network fi fl s)"
proof -
  have "reachable (snd (load_begin fi fl s))"
    using assms by (rule reachable.load_begins)
  then have "reachable (load_response fi fl (fst (load_begin fi fl s))
               (Inl (TypeError ''Failed to fetch'')) (snd (load_begin fi fl s)))"
    by (rule reachable.load_fails)
  then show ?thesis
    by (simp add: load_def split_beta fetchGalleryPage_def offline_network_def)
qed

lemma reachable_initial: "reachable initial_state"
proof -
  have "reachable (initial_state\<lparr>list_cache := None, image_cache := Map.empty\<rparr>)"
    by (rule reachable.mounted) simp
  then show ?thesis by (simp add: initial_state_def)
qed

lemma reachable_scenario_state: "reachable scenario_state"
proof -
  have p: "fetchGalleryPage PAGE_SIZE
             (scenario_network (map scenario_doc [''3'', ''4'', ''5''])
                (page_request (Some ''t'') None PAGE_SIZE))
           = Inr \<lparr>items = map scenario_item [''5'', ''4'', ''3''], page_hasMore = False,
                  nextCursor = None\<rparr>"
    by code_simp
  have d: "distinct (map item_id (items \<lparr>items = map scenario_item [''5'', ''4'', ''3''],
                  page_hasMore = False, nextCursor = None\<rparr>))"
    by code_simp
  show ?thesis
    unfolding scenario_state_def
    using reachable_load
            [of initial_state "scenario_network (map scenario_doc [''3'', ''4'', ''5''])" "Some ''t''"]
          reachable_initial p d
    by blast
qed

lemma reachable_delete_dialog_state: "reachable delete_dialog_state"
  unfolding delete_dialog_state_def using reachable_scenario_state by (rule reachable.dialog_opens)

lemma reachable_batch_selection_state: "reachable batch_selection_state"
  unfolding batch_selection_state_def
  by (intro reachable.selection_toggles reachable.batch_mode_toggles reachable_scenario_state)

lemma reachable_stale_tail_state: "reachable stale_tail_state"
proof -
  let ?n = "scenario_network (map scenario_doc [''4'', ''5''])"
  have p: "fetchGalleryPage PAGE_SIZE (?n (page_request (Some ''t'') None PAGE_SIZE))
           = Inr \<lparr>items = map scenario_item [''5'', ''4''], page_hasMore = False,
                  nextCursor = None\<rparr>"
    by code_simp
  have d: "distinct (map item_id (items \<lparr>items = map scenario_item [''5'', ''4''],
                  page_hasMore = False, nextCursor = None\<rparr>))"
    by code_simp
  let ?s = "toggleEntrySelection ''3'' (toggleBatchMode (load (Some ''t'') ?n False True scenario_state))"
  have "reachable (load (Some ''t'') ?n False True scenario_state)"
    using reachable_load [of scenario_state ?n "Some ''t''"] reachable_scenario_state p d
    by blast
  then have "reachable ?s"
    by (intro reachable.selection_toggles reachable.batch_mode_toggles)
  moreover have "clearImageCache_begin True ?s = Some (the (clearImageCache_begin True ?s))"
    by (simp add: clearImageCache_begin_def)
  ultimately have "reachable (the (clearImageCache_begin True ?s))"
    by (rule reachable.image_cache_clears)
  then show ?thesis by (simp add: stale_tail_state_def)
qed

subsection \<open>The background refresh\<close>

lemma load_response_forced:
  "(let s' = load_response fi True True (Inr pg) t;
        top = filter (\<lambda>e. item_id e \<notin> pendingDeleteIds t) (items pg)
    in map item (entries s')
         = top @ map item (filter (\<lambda>e. entry_id e \<notin> set (map item_id top)) (entries t))
       \<and> paginationCursor s' = (if truthy (paginationCursor t) then paginationCursor t
                                 else nextCursor pg)
       \<and> hasMore s' = hasMore t)"
  by (simp add: Let_def load_response_items mergeTopPage_items)
     (simp add: load_response_def Let_def mergeTopPage_fields)

lemma load_forced_populated:
  assumes "entries s \<noteq> []"
  shows "load token respond fi True s
           = load_response fi True True
               (fetchGalleryPage PAGE_SIZE (respond (page_request token None PAGE_SIZE)))
               (s\<lparr>error := []\<rparr>)"
  using assms by (simp add: load_def load_begin_def Let_def)

text \<open>
  C3. A forced list refresh over a populated list: the entries of the fetched first page
  (those not pending deletion) come first, with the server's fields; every entry of the list
  whose id is not among them follows, in its old order; the cursor is taken from the response
  only if none was set, and \<open>hasMore\<close> stays. This holds on whatever state the response finds;
  when nothing else runs in between, \<open>load\<close> is that response handling on the state it
  was called in.
\<close>

theorem background_refresh_merge:
  "(let s' = load_response fi True True (Inr pg) t;
        top = filter (\<lambda>e. item_id e \<notin> pendingDeleteIds t) (items pg)
    in map item (entries s')
         = top @ map item (filter (\<lambda>e. entry_id e \<notin> set (map item_id top)) (entries t))
       \<and> paginationCursor s' = (if truthy (paginationCursor t) then paginationCursor t
                                 else nextCursor pg)
       \<and> hasMore s' = hasMore t)
   \<and> (entries s \<noteq> [] \<longrightarrow>
        load token respond fi True s
          = load_response fi True True
              (fetchGalleryPage PAGE_SIZE (respond (page_request token None PAGE_SIZE)))
              (s\<lparr>error := []\<rparr>))"
  using load_response_forced [of fi pg t] load_forced_populated [of s token respond fi]
  by simp



theorem background_refresh_merge_witness:
  "map entry_id (entries
      (load (Some ''t'') (scenario_network (map scenario_doc [''4'', ''5'', ''6''])) False True
         (scenario_state\<lparr>paginationCursor := Some ''3''\<rparr>))) = [''6'', ''5'', ''4'', ''3'']
   \<and> paginationCursor
        (load (Some ''t'') (scenario_network (map scenario_doc [''4'', ''5'', ''6''])) False True
           (scenario_state\<lparr>paginationCursor := Some ''3''\<rparr>)) = Some ''3''"
proof -
  let ?s = "scenario_state\<lparr>paginationCursor := Some ''3''\<rparr>"
  let ?n = "scenario_network (map scenario_doc [''4'', ''5'', ''6''])"
  let ?r = "load_response False True True
              (fetchGalleryPage PAGE_SIZE (?n (page_request (Some ''t'') None PAGE_SIZE)))
              (?s\<lparr>error := []\<rparr>)"
  have h: "entries ?s \<noteq> []"
    by (simp add: scenario_state_entries)
  have e: "map entry_id (entries ?r) = [''6'', ''5'', ''4'', ''3'']"
    by code_simp
  have c: "paginationCursor ?r = Some ''3''"
    by code_simp
  from background_refresh_merge [of False _ _ ?s "Some ''t''" ?n] h
  have "load (Some ''t'') ?n False True ?s = ?r"
    by simp
  with e c show ?thesis by simp
qed

subsection \<open>loadMore\<close>

lemma loadMore_guard:
  assumes "loading s \<or> loadingMore s \<or> \<not> hasMore s \<or> \<not> truthy (paginationCursor s)"
  shows "loadMore_begin token s = None \<and> loadMore token respond s = s"
  using assms by (auto simp: loadMore_begin_def loadMore_def truthy_def)

lemma loadMore_request:
  assumes "\<not> loading s" "\<not> loadingMore s" "hasMore s" "truthy (paginationCursor s)"
  shows "loadMore_begin token s
           = Some (page_request token (paginationCursor s) PAGE_SIZE, s\<lparr>loadingMore := True\<rparr>)"
    and "cursor_param (page_request token (paginationCursor s) PAGE_SIZE) = paginationCursor s"
    and "limit_param (page_request token (paginationCursor s) PAGE_SIZE) = Some ''60''"
    and "loadMore token respond s
           = loadMore_response
               (fetchGalleryPage PAGE_SIZE
                  (respond (page_request token (paginationCursor s) PAGE_SIZE)))
               (s\<lparr>loadingMore := True\<rparr>)"
proof -
  have "string_of_nat 60 = ''60''" by code_simp
  then show "limit_param (page_request token (paginationCursor s) PAGE_SIZE) = Some ''60''"
    by (simp add: page_request_def PAGE_SIZE_def)
qed (use assms in \<open>simp_all add: loadMore_begin_def loadMore_def page_request_def\<close>)

lemma loadMore_response_appends:
  "\<exists>app. entries (loadMore_response (Inr pg) s) = entries s @ app
       \<and> set (map entry_id app) \<inter> set (map entry_id (entries s)) = {}
       \<and> distinct (map entry_id app)
       \<and> set (map entry_id app) \<inter> pendingDeleteIds s = {}
       \<and> set (map entry_id app)
           = set (map item_id (items pg)) - pendingDeleteIds s - set (map entry_id (entries s))"
proof -
  define vis where "vis = filter (\<lambda>e. item_id e \<notin> pendingDeleteIds s) (items pg)"
  define app where "app = fst (queueImageLoads
       (appendedEntries (set (map entry_id (entries s))) (image_cache s) vis) s)"
  have ids: "map entry_id app
               = map entry_id (appendedEntries (set (map entry_id (entries s))) (image_cache s) vis)"
    by (simp add: app_def queueImageLoads_ids)
  have e: "entries (loadMore_response (Inr pg) s) = entries s @ app"
    by (simp add: loadMore_response_entries app_def vis_def)
  have s: "set (map entry_id app) = set (map item_id vis) - set (map entry_id (entries s))"
    unfolding ids appendedEntries_ids_set ..
  have v: "set (map item_id vis) = set (map item_id (items pg)) - pendingDeleteIds s"
    by (auto simp: vis_def)
  have d: "distinct (map entry_id app)"
    unfolding ids by (rule appendedEntries_distinct)
  from e s v d show ?thesis by (intro exI [of _ app]) auto
qed

text \<open>
  C4. \<open>loadMore\<close> does nothing while a load is in flight, when \<open>hasMore\<close> is false or when there
  is no cursor (null, or the empty string, which no page of the server yields). Otherwise it
  sends one request with the current cursor and the page size.
  On the page that comes back, the list becomes the old list followed by new entries whose
  ids are distinct, not pending deletion and not in the old list (they are exactly the ids
  of the page that are neither); the cursor and \<open>hasMore\<close> are those of the page and
  \<open>loadingMore\<close> is cleared.
\<close>

theorem loadMore_contract:
  "(loading s \<or> loadingMore s \<or> \<not> hasMore s \<or> \<not> truthy (paginationCursor s)
      \<longrightarrow> loadMore_begin token s = None \<and> loadMore token respond s = s)
   \<and> (\<not> loading s \<and> \<not> loadingMore s \<and> hasMore s \<and> truthy (paginationCursor s)
      \<longrightarrow> (let req = page_request token (paginationCursor s) PAGE_SIZE
           in loadMore_begin token s = Some (req, s\<lparr>loadingMore := True\<rparr>)
              \<and> cursor_param req = paginationCursor s \<and> limit_param req = Some ''60''
              \<and> loadMore token respond s
                  = loadMore_response (fetchGalleryPage PAGE_SIZE (respond req))
                      (s\<lparr>loadingMore := True\<rparr>)))
   \<and> (\<exists>app. entries (loadMore_response (Inr pg) t) = entries t @ app
         \<and> set (map entry_id app) \<inter> set (map entry_id (entries t)) = {}
         \<and> distinct (map entry_id app)
         \<and> set (map entry_id app) \<inter> pendingDeleteIds t = {}
         \<and> set (map entry_id app)
             = set (map item_id (items pg)) - pendingDeleteIds t - set (map entry_id (entries t)))
   \<and> paginationCursor (loadMore_response (Inr pg) t) = nextCursor pg
   \<and> hasMore (loadMore_response (Inr pg) t) = page_hasMore pg
   \<and> \<not> loadingMore (loadMore_response (Inr pg) t)"
proof -
  have A: "loading s \<or> loadingMore s \<or> \<not> hasMore s \<or> \<not> truthy (paginationCursor s)
      \<longrightarrow> loadMore_begin token s = None \<and> loadMore token respond s = s"
    using loadMore_guard by blast
  have B: "\<not> loading s \<and> \<not> loadingMore s \<and> hasMore s \<and> truthy (paginationCursor s)
      \<longrightarrow> (let req = page_request token (paginationCursor s) PAGE_SIZE
           in loadMore_begin token s = Some (req, s\<lparr>loadingMore := True\<rparr>)
              \<and> cursor_param req = paginationCursor s \<and> limit_param req = Some ''60''
              \<and> loadMore token respond s
                  = loadMore_response (fetchGalleryPage PAGE_SIZE (respond req))
                      (s\<lparr>loadingMore := True\<rparr>))"
    unfolding Let_def by (simp add: loadMore_request)
  from A B loadMore_response_appends [of pg t] loadMore_response_fields
  show ?thesis by simp
qed

theorem loadMore_contract_witness:
  "map entry_id (entries (loadMore (Some ''t'') (scenario_network scenario_store)
      (scenario_state\<lparr>paginationCursor := Some ''3'', hasMore := True\<rparr>)))
     = [''5'', ''4'', ''3'', ''2'', ''1'']
   \<and> map entry_id (entries (loadMore (Some ''t'') (scenario_network scenario_store)
      (scenario_state\<lparr>paginationCursor := Some ''3'', loading := True\<rparr>))) = [''5'', ''4'', ''3'']"
proof -
  let ?s = "scenario_state\<lparr>paginationCursor := Some ''3'', hasMore := True\<rparr>"
  let ?b = "scenario_state\<lparr>paginationCursor := Some ''3'', loading := True\<rparr>"
  have g: "\<not> loading ?s \<and> \<not> loadingMore ?s \<and> hasMore ?s \<and> truthy (paginationCursor ?s)"
    by (simp add: scenario_state_flags truthy_def)
  have b: "loading ?b \<or> loadingMore ?b \<or> \<not> hasMore ?b \<or> \<not> truthy (paginationCursor ?b)"
    by simp
  have r: "map entry_id (entries (loadMore_response (fetchGalleryPage PAGE_SIZE
              (scenario_network scenario_store (page_request (Some ''t'') (paginationCursor ?s) PAGE_SIZE)))
              (?s\<lparr>loadingMore := True\<rparr>))) = [''5'', ''4'', ''3'', ''2'', ''1'']"
    by code_simp
  have e: "map entry_id (entries ?b) = [''5'', ''4'', ''3'']"
    by code_simp
  from loadMore_contract [of ?s "Some ''t''" "scenario_network scenario_store"] g r
  have 1: "map entry_id (entries (loadMore (Some ''t'') (scenario_network scenario_store) ?s))
             = [''5'', ''4'', ''3'', ''2'', ''1'']"
    by (simp add: Let_def)
  from loadMore_contract [of ?b "Some ''t''" "scenario_network scenario_store"] b e
  have 2: "map entry_id (entries (loadMore (Some ''t'') (scenario_network scenario_store) ?b))
             = [''5'', ''4'', ''3'']"
    by simp
  from 1 2 show ?thesis by simp
qed


section \<open>Properties of the mutation engine\<close>

subsection \<open>Hiding and restoring one entry\<close>

lemma findIndex_Some:
  "findIndex P xs = Some i \<Longrightarrow> i < length xs \<and> P (xs ! i) \<and> (\<forall>j<i. \<not> P (xs ! j))"
proof (induction xs arbitrary: i)
  case Nil
  then show ?case by simp
next
  case (Cons x xs)
  show ?case
  proof (cases "P x")
    case True
    with Cons.prems show ?thesis by simp
  next
    case False
    with Cons.prems obtain k where k: "findIndex P xs = Some k" "i = Suc k"
      by auto
    from Cons.IH [OF k(1)] False k(2) show ?thesis
      by (auto simp: nth_Cons split: nat.splits)
  qed
qed

lemma findIndex_None: "findIndex P xs = None \<longleftrightarrow> (\<forall>x\<in>set xs. \<not> P x)"
  by (induction xs) auto

lemma findIndex_member:
  "x \<in> set xs \<Longrightarrow> P x \<Longrightarrow> \<exists>i. findIndex P xs = Some i"
  using findIndex_None [of P xs] by (cases "findIndex P xs") auto

lemma hide_found:
  assumes "hideEntryOptimistically eid s = (Some snap, s1)"
  shows "findIndex (\<lambda>e. entry_id e = eid) (entries s) = Some (snap_index snap)"
    and "snap_entry snap = entries s ! snap_index snap"
    and "entries s1 = take (snap_index snap) (entries s) @ drop (Suc (snap_index snap)) (entries s)"
    and "pendingDeleteIds s1 = insert eid (pendingDeleteIds s)"
  using assms
  by (auto simp: hideEntryOptimistically_def Let_def syncSelectionWithEntries_def
           split: option.splits if_splits)

lemma hide_snapshot:
  assumes "hideEntryOptimistically eid s = (Some snap, s1)"
  shows "snap_index snap < length (entries s)" and "entry_id (snap_entry snap) = eid"
  using findIndex_Some [OF hide_found(1) [OF assms]] hide_found(2) [OF assms] by auto

lemma restore_absent:
  assumes "entry_id (snap_entry snap) \<notin> set (map entry_id (entries t))"
  shows "entries (restoreHiddenEntry (Some snap) t)
           = take (min (snap_index snap) (length (entries t))) (entries t) @ [snap_entry snap]
               @ drop (min (snap_index snap) (length (entries t))) (entries t)"
    and "pendingDeleteIds (restoreHiddenEntry (Some snap) t)
           = pendingDeleteIds t - {entry_id (snap_entry snap)}"
  using assms
  by (simp_all add: restoreHiddenEntry_def Let_def syncSelectionWithEntries_def)

lemma distinct_remove_nth:
  assumes "distinct (map f xs)" "i < length xs"
  shows "f (xs ! i) \<notin> set (map f (take i xs @ drop (Suc i) xs))"
proof -
  have "map f xs = map f (take i xs) @ f (xs ! i) # map f (drop (Suc i) xs)"
    using assms(2) by (metis id_take_nth_drop map_append list.simps(9))
  with assms(1) have "distinct (map f (take i xs) @ f (xs ! i) # map f (drop (Suc i) xs))"
    by simp
  then show ?thesis by auto
qed

lemma hide_then_restore:
  assumes "hideEntryOptimistically eid s = (Some snap, s1)"
    and "distinct (map entry_id (entries s))"
  shows "entries (restoreHiddenEntry (Some snap) s1) = entries s"
    and "pendingDeleteIds (restoreHiddenEntry (Some snap) s1) = pendingDeleteIds s - {eid}"
proof -
  let ?i = "snap_index snap"
  have i: "?i < length (entries s)" using hide_snapshot(1) [OF assms(1)] .
  have e: "entries s1 = take ?i (entries s) @ drop (Suc ?i) (entries s)"
    using hide_found(3) [OF assms(1)] .
  have absent: "entry_id (snap_entry snap) \<notin> set (map entry_id (entries s1))"
    unfolding e hide_found(2) [OF assms(1)]
    using distinct_remove_nth [OF assms(2) i] .
  have len: "min ?i (length (entries s1)) = ?i"
    using i by (simp add: e)
  have "entries (restoreHiddenEntry (Some snap) s1)
          = take ?i (entries s1) @ [snap_entry snap] @ drop ?i (entries s1)"
    using restore_absent(1) [OF absent] by (simp add: len)
  also have "\<dots> = take ?i (entries s) @ [entries s ! ?i] @ drop (Suc ?i) (entries s)"
    using i by (simp add: e hide_found(2) [OF assms(1)])
  also have "\<dots> = entries s"
    using i by (simp add: id_take_nth_drop [symmetric])
  finally show "entries (restoreHiddenEntry (Some snap) s1) = entries s" .
  show "pendingDeleteIds (restoreHiddenEntry (Some snap) s1) = pendingDeleteIds s - {eid}"
    using restore_absent(2) [OF absent] hide_found(4) [OF assms(1)] hide_snapshot(2) [OF assms(1)]
    by auto
qed


lemma hide_present:
  assumes "eid \<in> set (map entry_id (entries s))"
  shows "\<exists>snap s1. hideEntryOptimistically eid s = (Some snap, s1)"
proof -
  from assms obtain x where "x \<in> set (entries s)" "entry_id x = eid" by auto
  then obtain i where "findIndex (\<lambda>e. entry_id e = eid) (entries s) = Some i"
    using findIndex_member [of x "entries s" "\<lambda>e. entry_id e = eid"] by blast
  then show ?thesis by (simp add: hideEntryOptimistically_def Let_def)
qed

lemma performDelete_unfold:
  assumes "pendingDelete s = Some e" "entry_id e \<noteq> []"
    and "hideEntryOptimistically (entry_id e) (s\<lparr>showDeleteModal := False\<rparr>) = (snap, s1)"
  shows "performDelete token respond s
           = performDelete_end e snap
               (requestDeleteById (respond (delete_request token (entry_id e)))) s1"
  using assms by (simp add: performDelete_def performDelete_begin_def)

lemma performDelete_failure:
  assumes "pendingDelete s = Some e" "entry_id e \<noteq> []"
    and "entry_id e \<in> set (map entry_id (entries s))"
    and "distinct (map entry_id (entries s))"
    and "requestDeleteById (respond (delete_request token (entry_id e))) = Inl err"
  shows "entries (performDelete token respond s) = entries s"
    and "pendingDeleteIds (performDelete token respond s) = pendingDeleteIds s - {entry_id e}"
    and "toastMessage (performDelete token respond s) = Some (ToastDeleteFailed (message_or_error err))"
    and "pendingDelete (performDelete token respond s) = None"
proof -
  let ?s = "s\<lparr>showDeleteModal := False\<rparr>"
  obtain snap s1 where h: "hideEntryOptimistically (entry_id e) ?s = (Some snap, s1)"
    using hide_present [of "entry_id e" ?s] assms(3) by auto
  have p: "performDelete token respond s
             = (showToastMsg (ToastDeleteFailed (message_or_error err))
                  (restoreHiddenEntry (Some snap) s1))\<lparr>pendingDelete := None\<rparr>"
    using performDelete_unfold [OF assms(1,2) h] assms(5)
    by (simp add: performDelete_end_def)
  have d: "distinct (map entry_id (entries ?s))" using assms(4) by simp
  from hide_then_restore [OF h d]
  show "entries (performDelete token respond s) = entries s"
    and "pendingDeleteIds (performDelete token respond s) = pendingDeleteIds s - {entry_id e}"
    by (simp_all add: p showToastMsg_def)
  show "toastMessage (performDelete token respond s) = Some (ToastDeleteFailed (message_or_error err))"
    and "pendingDelete (performDelete token respond s) = None"
    by (simp_all add: p showToastMsg_def)
qed

lemma finalize_entries [simp]:
  "entries (finalizeDeleteSuccess e s) = entries s"
  "pendingDeleteIds (finalizeDeleteSuccess e s) = pendingDeleteIds s - {entry_id e}"
  by (simp_all add: finalizeDeleteSuccess_def syncSelectionWithEntries_def
        removeEntryFromLocalCache_def setGalleryListCache_def Let_def)

text \<open>
  C2. When \<open>hideEntryOptimistically\<close> finds the entry, it removes it at its index, remembers
  entry and index, and adds the id to the pending-deletion set. Restoring the snapshot on a
  list that does not hold the id (whatever else has changed meanwhile) inserts the entry at
  the smaller of the remembered index and the length of that list, and takes the id out of
  the pending-deletion set. With ids unique in the list and nothing changed in between, the
  list after the rollback is the list before the delete, entry for entry, so the two hold the
  same set of entries; this is what \<open>performDelete\<close> leaves when its request fails.
\<close>

theorem rollback_correctness:
  assumes "hideEntryOptimistically eid s = (Some snap, s1)"
  shows "snap_index snap < length (entries s)
         \<and> snap_entry snap = entries s ! snap_index snap
         \<and> entry_id (snap_entry snap) = eid
         \<and> entries s1 = take (snap_index snap) (entries s) @ drop (Suc (snap_index snap)) (entries s)
         \<and> pendingDeleteIds s1 = insert eid (pendingDeleteIds s)
         \<and> (eid \<notin> set (map entry_id (entries t)) \<longrightarrow>
              entries (restoreHiddenEntry (Some snap) t)
                = take (min (snap_index snap) (length (entries t))) (entries t) @ [snap_entry snap]
                    @ drop (min (snap_index snap) (length (entries t))) (entries t)
              \<and> pendingDeleteIds (restoreHiddenEntry (Some snap) t) = pendingDeleteIds t - {eid})
         \<and> (distinct (map entry_id (entries s)) \<longrightarrow>
              entries (restoreHiddenEntry (Some snap) s1) = entries s
              \<and> set (entries (restoreHiddenEntry (Some snap) s1)) = set (entries s)
              \<and> pendingDeleteIds (restoreHiddenEntry (Some snap) s1) = pendingDeleteIds s - {eid})
         \<and> (distinct (map entry_id (entries s)) \<and> pendingDelete s = Some e \<and> entry_id e = eid
              \<and> eid \<noteq> [] \<and> requestDeleteById (respond (delete_request token eid)) = Inl err \<longrightarrow>
              entries (performDelete token respond s) = entries s
              \<and> pendingDeleteIds (performDelete token respond s) = pendingDeleteIds s - {eid})"
proof -
  note f = hide_found [OF assms] and n = hide_snapshot [OF assms]
  have present: "eid \<in> set (map entry_id (entries s))"
    using n f(2) by (metis length_map nth_map nth_mem)
  have A: "eid \<notin> set (map entry_id (entries t)) \<longrightarrow>
              entries (restoreHiddenEntry (Some snap) t)
                = take (min (snap_index snap) (length (entries t))) (entries t) @ [snap_entry snap]
                    @ drop (min (snap_index snap) (length (entries t))) (entries t)
              \<and> pendingDeleteIds (restoreHiddenEntry (Some snap) t) = pendingDeleteIds t - {eid}"
    using restore_absent [of snap t] n(2) by simp
  have B: "distinct (map entry_id (entries s)) \<longrightarrow>
              entries (restoreHiddenEntry (Some snap) s1) = entries s
              \<and> set (entries (restoreHiddenEntry (Some snap) s1)) = set (entries s)
              \<and> pendingDeleteIds (restoreHiddenEntry (Some snap) s1) = pendingDeleteIds s - {eid}"
    using hide_then_restore [OF assms] by simp
  have C: "distinct (map entry_id (entries s)) \<and> pendingDelete s = Some e \<and> entry_id e = eid
              \<and> eid \<noteq> [] \<and> requestDeleteById (respond (delete_request token eid)) = Inl err \<longrightarrow>
              entries (performDelete token respond s) = entries s
              \<and> pendingDeleteIds (performDelete token respond s) = pendingDeleteIds s - {eid}"
    using performDelete_failure(1,2) [of s e respond token err] present by auto
  from n f(2,3,4) A B C show ?thesis by simp
qed

theorem rollback_correctness_witness:
  "map entry_id (entries (snd (hideEntryOptimistically ''4'' scenario_state))) = [''5'', ''3'']
   \<and> pendingDeleteIds (snd (hideEntryOptimistically ''4'' scenario_state)) = {''4''}
   \<and> entries (restoreHiddenEntry (fst (hideEntryOptimistically ''4'' scenario_state))
                (snd (hideEntryOptimistically ''4'' scenario_state))) = entries scenario_state
   \<and> pendingDeleteIds (restoreHiddenEntry (fst (hideEntryOptimistically ''4'' scenario_state))
                (snd (hideEntryOptimistically ''4'' scenario_state))) = {}"
proof -
  obtain snap s1 where h: "hideEntryOptimistically ''4'' scenario_state = (Some snap, s1)"
    using hide_present [of "''4''" scenario_state]
    by (auto simp: scenario_state_ids)
  have d: "distinct (map entry_id (entries scenario_state))"
    by (simp add: scenario_state_ids)
  have p: "pendingDeleteIds scenario_state = {}"
    by (rule scenario_state_pending)
  have i: "map entry_id (entries (snd (hideEntryOptimistically ''4'' scenario_state))) = [''5'', ''3'']"
    by code_simp
  from rollback_correctness [OF h] d p i show ?thesis
    by (simp add: h)
qed


subsection \<open>A delete that the server answers with Not found\<close>

lemma deleteOne_absent:
  "oid \<notin> doc_id ` set coll \<Longrightarrow> deleteOne oid coll = (coll, 0)"
  by (induction coll) auto

lemma handleGallery_delete_not_found:
  assumes "i \<noteq> []" "ObjectId i = Inr oid" "oid \<notin> doc_id ` set coll"
  shows "handleGallery_delete ObjectId coll (Some i) = (jsonResponse (ErrorBody ''Not found'') 404, coll)"
  using assms by (simp add: handleGallery_delete_def truthy_def deleteOne_absent)

lemma requestDeleteById_not_found:
  "requestDeleteById (Replied 404 (Some (ErrorBody ''Not found''))) = Inl (Error ''Not found'')"
  by (simp add: requestDeleteById_def resp_ok_def body_error_def or_default_def)

text \<open>
  C7, as the code has it. When the server answers a delete with 404 and \<open>Not found\<close> (the entry
  is already gone there), \<open>requestDeleteById\<close> throws as for every reply that is not a
  success, and \<open>performDelete\<close> rolls back: the entry is in the visible list again, at its
  place, its id is no longer pending, and the toast reports the failure with the server's
  text. In a batch the same outcome adds one to the failures.
\<close>

theorem not_found_is_rolled_back:
  assumes "pendingDelete s = Some e" and "entry_id e \<noteq> []"
    and "entry_id e \<in> set (map entry_id (entries s))"
    and "distinct (map entry_id (entries s))"
    and "respond (delete_request token (entry_id e)) = Replied 404 (Some (ErrorBody ''Not found''))"
  shows "requestDeleteById (respond (delete_request token (entry_id e))) = Inl (Error ''Not found'')
         \<and> entries (performDelete token respond s) = entries s
         \<and> entry_id e \<in> set (map entry_id (entries (performDelete token respond s)))
         \<and> pendingDeleteIds (performDelete token respond s) = pendingDeleteIds s - {entry_id e}
         \<and> toastMessage (performDelete token respond s) = Some (ToastDeleteFailed ''Not found'')
         \<and> batch_step (e, snap) (requestDeleteById (respond (delete_request token (entry_id e))))
              (t, successCount, failCount)
            = (restoreHiddenEntry snap t, successCount, failCount + 1)"
proof -
  have r: "requestDeleteById (respond (delete_request token (entry_id e))) = Inl (Error ''Not found'')"
    using assms(5) requestDeleteById_not_found by simp
  have m: "message_or_error (Error ''Not found'') = ''Not found''"
    by (simp add: message_or_error_def error_message_def)
  from performDelete_failure [of s e respond token "Error ''Not found''"] assms(1-4) r m
  show ?thesis
    by (simp add: batch_step_def)
qed

theorem not_found_is_rolled_back_witness:
  "scenario_network (map scenario_doc [''3'', ''5'']) (delete_request (Some ''t'') ''4'')
     = Replied 404 (Some (ErrorBody ''Not found''))
   \<and> entries (performDelete (Some ''t'') (scenario_network (map scenario_doc [''3'', ''5'']))
                delete_dialog_state) = entries delete_dialog_state
   \<and> toastMessage (performDelete (Some ''t'') (scenario_network (map scenario_doc [''3'', ''5'']))
                delete_dialog_state) = Some (ToastDeleteFailed ''Not found'')"
proof -
  let ?n = "scenario_network (map scenario_doc [''3'', ''5''])"
  have i: "entry_id (scenario_entry ''4'') = ''4''"
    by code_simp
  have 1: "pendingDelete delete_dialog_state = Some (scenario_entry ''4'')"
    by (simp add: delete_dialog_state_def openDeleteModal_def)
  have 2: "entry_id (scenario_entry ''4'') \<noteq> []"
    by (simp add: i)
  have ids: "map entry_id (entries delete_dialog_state) = [''5'', ''4'', ''3'']"
    by code_simp
  have 3: "entry_id (scenario_entry ''4'') \<in> set (map entry_id (entries delete_dialog_state))"
    unfolding ids i by simp
  have 4: "distinct (map entry_id (entries delete_dialog_state))"
    unfolding ids by simp
  have 5: "?n (delete_request (Some ''t'') (entry_id (scenario_entry ''4'')))
             = Replied 404 (Some (ErrorBody ''Not found''))"
    by code_simp
  from not_found_is_rolled_back
         [of delete_dialog_state "scenario_entry ''4''" ?n "Some ''t''"] 1 2 3 4 5
  show ?thesis
    by (simp add: i)
qed

text \<open>
  C7 as stated fails: with the list 5, 4, 3 and entry 4 already removed on the server, the
  delete of 4 is answered with Not found and leaves the visible list 5, 4, 3, whereas the
  delete that succeeds leaves 5, 3.
\<close>

theorem not_found_counterexample:
  "reachable delete_dialog_state
   \<and> scenario_network (map scenario_doc [''3'', ''5'']) (delete_request (Some ''t'') ''4'')
     = Replied 404 (Some (ErrorBody ''Not found''))
   \<and> map entry_id (entries (performDelete (Some ''t'')
        (scenario_network (map scenario_doc [''3'', ''5''])) delete_dialog_state))
     = [''5'', ''4'', ''3'']
   \<and> map entry_id (entries (performDelete (Some ''t'')
        (scenario_network scenario_store) delete_dialog_state))
     = [''5'', ''3'']"
proof -
  have "scenario_network (map scenario_doc [''3'', ''5'']) (delete_request (Some ''t'') ''4'')
     = Replied 404 (Some (ErrorBody ''Not found''))
   \<and> map entry_id (entries (performDelete (Some ''t'')
        (scenario_network (map scenario_doc [''3'', ''5''])) delete_dialog_state))
     = [''5'', ''4'', ''3'']
   \<and> map entry_id (entries (performDelete (Some ''t'')
        (scenario_network scenario_store) delete_dialog_state))
     = [''5'', ''3'']"
    by code_simp
  with reachable_delete_dialog_state show ?thesis by simp
qed

subsection \<open>Batch deletion\<close>

text \<open>
  What holds of a batch in general, with ids unique in the list and nothing else running in
  between: every target is hidden before the first request, the report counts the requests
  that succeeded and those that failed, and the entries of the final list are those of the
  initial list without the targets whose delete succeeded. The order of the entries that
  come back is another matter (see below).
\<close>

lemma remove_nth_filter:
  assumes "distinct (map f xs)" "i < length xs"
  shows "take i xs @ drop (Suc i) xs = filter (\<lambda>x. f x \<noteq> f (xs ! i)) xs"
  using assms
proof (induction xs arbitrary: i)
  case Nil
  then show ?case by simp
next
  case (Cons x xs)
  show ?case
  proof (cases i)
    case 0
    have nx: "f x \<notin> f ` set xs"
      using Cons.prems(1) by simp
    have "\<forall>y\<in>set xs. f y \<noteq> f x"
    proof
      fix y
      assume "y \<in> set xs"
      then have "f y \<in> f ` set xs" by (rule imageI)
      with nx show "f y \<noteq> f x" by metis
    qed
    then have "filter (\<lambda>y. f y \<noteq> f x) xs = xs"
      by simp
    with 0 show ?thesis by simp
  next
    case (Suc k)
    with Cons.prems have k: "k < length xs" "distinct (map f xs)" by auto
    have "f x \<noteq> f (xs ! k)" using Cons.prems(1) k(1) by auto
    with Cons.IH [OF k(2) k(1)] Suc show ?thesis by simp
  qed
qed

lemma hide_distinct:
  assumes "distinct (map entry_id (entries s))" "x \<in> set (entries s)"
  shows "\<exists>snap s1. hideEntryOptimistically (entry_id x) s = (Some snap, s1)
           \<and> snap_entry snap = x
           \<and> entries s1 = filter (\<lambda>e. entry_id e \<noteq> entry_id x) (entries s)
           \<and> pendingDeleteIds s1 = insert (entry_id x) (pendingDeleteIds s)"
proof -
  obtain snap s1 where h: "hideEntryOptimistically (entry_id x) s = (Some snap, s1)"
    using hide_present [of "entry_id x" s] assms(2) by auto
  note f = hide_found [OF h] and n = hide_snapshot [OF h]
  let ?i = "snap_index snap"
  have same: "entries s ! ?i = x"
  proof -
    obtain j where j: "j < length (entries s)" "entries s ! j = x"
      using assms(2) by (auto simp: in_set_conv_nth)
    have "map entry_id (entries s) ! j = map entry_id (entries s) ! ?i"
      using j n f(2) by simp
    moreover have "j < length (map entry_id (entries s))" "?i < length (map entry_id (entries s))"
      using j(1) n(1) by simp_all
    ultimately have "j = ?i"
      using nth_eq_iff_index_eq [OF assms(1)] by blast
    with j(2) show ?thesis by simp
  qed
  have "entries s1 = filter (\<lambda>e. entry_id e \<noteq> entry_id x) (entries s)"
    using remove_nth_filter [OF assms(1) n(1)] f(3) same by simp
  with h f(2,4) same show ?thesis by simp
qed


lemma hide_targets_distinct:
  assumes "distinct (map entry_id (entries s))" "distinct (map entry_id ts)"
    and "set ts \<subseteq> set (entries s)"
  shows "\<exists>tg s1. hide_targets ts s = (tg, s1)
           \<and> map fst tg = ts
           \<and> list_all (\<lambda>t. \<exists>sn. snd t = Some sn \<and> snap_entry sn = fst t) tg
           \<and> entries s1 = filter (\<lambda>e. entry_id e \<notin> set (map entry_id ts)) (entries s)
           \<and> pendingDeleteIds s1 = pendingDeleteIds s \<union> set (map entry_id ts)"
  using assms
proof (induction ts arbitrary: s)
  case Nil
  then show ?case by simp
next
  case (Cons x ts)
  from Cons.prems(3) have x: "x \<in> set (entries s)" by simp
  obtain snap s1 where h: "hideEntryOptimistically (entry_id x) s = (Some snap, s1)"
    and sx: "snap_entry snap = x"
    and e1: "entries s1 = filter (\<lambda>e. entry_id e \<noteq> entry_id x) (entries s)"
    and p1: "pendingDeleteIds s1 = insert (entry_id x) (pendingDeleteIds s)"
    using hide_distinct [OF Cons.prems(1) x] by blast
  have d1: "distinct (map entry_id (entries s1))"
    unfolding e1 using Cons.prems(1) by (simp add: distinct_map_filter)
  have d2: "distinct (map entry_id ts)" using Cons.prems(2) by simp
  have sub: "set ts \<subseteq> set (entries s1)"
  proof
    fix y assume y: "y \<in> set ts"
    then have "entry_id y \<in> entry_id ` set ts" by (rule imageI)
    moreover have "entry_id x \<notin> entry_id ` set ts" using Cons.prems(2) by simp
    ultimately have "entry_id y \<noteq> entry_id x" by metis
    moreover have "y \<in> set (entries s)" using y Cons.prems(3) by auto
    ultimately show "y \<in> set (entries s1)" by (simp add: e1)
  qed
  from Cons.IH [OF d1 d2 sub] obtain tg s2 where t: "hide_targets ts s1 = (tg, s2)"
    and m: "map fst tg = ts"
    and a: "list_all (\<lambda>t. \<exists>sn. snd t = Some sn \<and> snap_entry sn = fst t) tg"
    and e2: "entries s2 = filter (\<lambda>e. entry_id e \<notin> set (map entry_id ts)) (entries s1)"
    and p2: "pendingDeleteIds s2 = pendingDeleteIds s1 \<union> set (map entry_id ts)"
    by blast
  have "hide_targets (x # ts) s = ((x, Some snap) # tg, s2)"
    by (simp add: h t)
  moreover have "entries s2 = filter (\<lambda>e. entry_id e \<notin> set (map entry_id (x # ts))) (entries s)"
    unfolding e2 e1 by (auto intro: filter_cong)
  moreover have "pendingDeleteIds s2 = pendingDeleteIds s \<union> set (map entry_id (x # ts))"
    unfolding p2 p1 by auto
  ultimately show ?case using m a sx by simp
qed

lemma batch_step_counts:
  "batch_step t outcome (s, m, n)
     = (case outcome of Inr _ \<Rightarrow> (finalizeDeleteSuccess (fst t) s, Suc m, n)
                      | Inl _ \<Rightarrow> (restoreHiddenEntry (snd t) s, m, Suc n))"
  by (simp add: batch_step_def split: sum.splits)

lemma restore_insert:
  assumes "entry_id (snap_entry sn) \<notin> set (map entry_id (entries t))"
  shows "set (entries (restoreHiddenEntry (Some sn) t)) = insert (snap_entry sn) (set (entries t))"
proof -
  let ?k = "min (snap_index sn) (length (entries t))"
  have e: "entries (restoreHiddenEntry (Some sn) t)
             = take ?k (entries t) @ [snap_entry sn] @ drop ?k (entries t)"
    using restore_absent(1) [OF assms] .
  have "set (entries t) = set (take ?k (entries t) @ drop ?k (entries t))"
    by simp
  then have "set (entries t) = set (take ?k (entries t)) \<union> set (drop ?k (entries t))"
    by (simp only: set_append)
  then show ?thesis unfolding e by auto
qed


lemma restore_ids:
  assumes "entry_id (snap_entry sn) \<notin> set (map entry_id (entries t))"
    and "distinct (map entry_id (entries t))"
  shows "distinct (map entry_id (entries (restoreHiddenEntry (Some sn) t)))"
    and "set (map entry_id (entries (restoreHiddenEntry (Some sn) t)))
           = insert (entry_id (snap_entry sn)) (set (map entry_id (entries t)))"
proof -
  let ?k = "min (snap_index sn) (length (entries t))"
  let ?ids = "map entry_id (entries t)"
  have e: "map entry_id (entries (restoreHiddenEntry (Some sn) t))
             = take ?k ?ids @ [entry_id (snap_entry sn)] @ drop ?k ?ids"
    using restore_absent(1) [OF assms(1)] by (simp add: take_map drop_map)
  have u: "set ?ids = set (take ?k ?ids) \<union> set (drop ?k ?ids)"
    by (metis append_take_drop_id set_append)
  have d: "distinct (take ?k ?ids) \<and> distinct (drop ?k ?ids)
             \<and> set (take ?k ?ids) \<inter> set (drop ?k ?ids) = {}"
    using assms(2) by (metis append_take_drop_id distinct_append)
  show "distinct (map entry_id (entries (restoreHiddenEntry (Some sn) t)))"
    unfolding e using d assms(1) u by auto
  show "set (map entry_id (entries (restoreHiddenEntry (Some sn) t)))
           = insert (entry_id (snap_entry sn)) (set (map entry_id (entries t)))"
    unfolding e using u by auto
qed

lemma batch_loop_result:
  assumes "distinct (map entry_id (entries s))"
    and "distinct (map entry_id (map fst tg))"
    and "list_all (\<lambda>t. \<exists>sn. snd t = Some sn \<and> snap_entry sn = fst t) tg"
    and "set (map entry_id (map fst tg)) \<inter> set (map entry_id (entries s)) = {}"
  shows "\<exists>s'. batch_loop token respond tg (s, m, n)
                 = (s', m + length (filter (delete_succeeds token respond) (map fst tg)),
                        n + length (filter (\<lambda>e. \<not> delete_succeeds token respond e) (map fst tg)))
           \<and> set (entries s')
               = set (entries s) \<union> set (filter (\<lambda>e. \<not> delete_succeeds token respond e) (map fst tg))"
  using assms
proof (induction tg arbitrary: s m n)
  case Nil
  then show ?case by simp
next
  case (Cons t tg)
  obtain e sn where t: "t = (e, Some sn)" and sn: "snap_entry sn = e"
    using Cons.prems(3) by (cases t) auto
  have rest: "distinct (map entry_id (map fst tg))"
    "list_all (\<lambda>t. \<exists>sn. snd t = Some sn \<and> snap_entry sn = fst t) tg"
    using Cons.prems(2,3) by simp_all
  have absent: "entry_id e \<notin> set (map entry_id (entries s))"
    using Cons.prems(4) t by auto
  have fresh: "entry_id e \<notin> set (map entry_id (map fst tg))"
    using Cons.prems(2) t by simp
  show ?case
  proof (cases "delete_succeeds token respond e")
    case True
    then obtain b where o: "requestDeleteById (respond (delete_request token (entry_id e))) = Inr b"
      by (auto simp: delete_succeeds_def split: sum.splits)
    let ?s1 = "finalizeDeleteSuccess e s"
    have d1: "distinct (map entry_id (entries ?s1))" using Cons.prems(1) by simp
    have i1: "set (map entry_id (map fst tg)) \<inter> set (map entry_id (entries ?s1)) = {}"
      using Cons.prems(4) by auto
    from Cons.IH [OF d1 rest i1, of "Suc m" n] True o t show ?thesis
      by (simp add: batch_step_counts)
  next
    case False
    then obtain err where o: "requestDeleteById (respond (delete_request token (entry_id e))) = Inl err"
      by (auto simp: delete_succeeds_def split: sum.splits)
    let ?s1 = "restoreHiddenEntry (Some sn) s"
    have a: "entry_id (snap_entry sn) \<notin> set (map entry_id (entries s))"
      using absent sn by simp
    have d1: "distinct (map entry_id (entries ?s1))"
      using restore_ids(1) [OF a Cons.prems(1)] .
    have i1: "set (map entry_id (map fst tg)) \<inter> set (map entry_id (entries ?s1)) = {}"
      unfolding restore_ids(2) [OF a Cons.prems(1)] using Cons.prems(4) fresh sn by auto
    have s1: "set (entries ?s1) = insert e (set (entries s))"
      using restore_insert [OF a] sn by simp
    from Cons.IH [OF d1 rest i1, of m "Suc n"] False o t s1 show ?thesis
      by (auto simp: batch_step_counts)
  qed
qed

lemma batch_accounting:
  assumes "distinct (map entry_id (entries s))"
    and "targets = filter (\<lambda>e. entry_id e \<in> set (selectedEntryIds s)) (entries s)"
    and "targets \<noteq> []"
    and "M = length (filter (delete_succeeds token respond) targets)"
  shows "toastMessage (performBatchDelete token respond True s)
           = Some (if length targets - M = 0 then ToastBatchDeleted M
                   else ToastBatchPartial M (length targets - M))"
    and "set (entries (performBatchDelete token respond True s))
           = set (entries s) - set (filter (delete_succeeds token respond) targets)"
proof -
  have dt: "distinct (map entry_id targets)"
    unfolding assms(2) using assms(1) by (simp add: distinct_map_filter)
  have sub: "set targets \<subseteq> set (entries s)"
    unfolding assms(2) by auto
  obtain tg s1 where h: "hide_targets targets s = (tg, s1)"
    and m: "map fst tg = targets"
    and a: "list_all (\<lambda>t. \<exists>sn. snd t = Some sn \<and> snap_entry sn = fst t) tg"
    and e1: "entries s1 = filter (\<lambda>e. entry_id e \<notin> set (map entry_id targets)) (entries s)"
    using hide_targets_distinct [OF assms(1) dt sub] by blast
  let ?s2 = "s1\<lparr>selectedEntryIds := [], batchMode := False\<rparr>"
  have d2: "distinct (map entry_id (entries ?s2))"
    using assms(1) by (simp add: e1 distinct_map_filter)
  have i2: "set (map entry_id (map fst tg)) \<inter> set (map entry_id (entries ?s2)) = {}"
    unfolding m by (auto simp: e1 image_iff)
  have dm: "distinct (map entry_id (map fst tg))" using dt m by simp
  obtain s' where l: "batch_loop token respond tg (?s2, 0, 0)
                 = (s', 0 + length (filter (delete_succeeds token respond) (map fst tg)),
                        0 + length (filter (\<lambda>e. \<not> delete_succeeds token respond e) (map fst tg)))"
    and es: "set (entries s')
               = set (entries ?s2) \<union> set (filter (\<lambda>e. \<not> delete_succeeds token respond e) (map fst tg))"
    using batch_loop_result [OF d2 dm a i2, of token respond 0 0] by blast
  have p: "performBatchDelete token respond True s
             = batch_report (s', M, length (filter (\<lambda>e. \<not> delete_succeeds token respond e) targets))"
    using assms(2,3,4) h l m
    by (simp add: performBatchDelete_def performBatchDelete_begin_def Let_def)
  have n: "length (filter (\<lambda>e. \<not> delete_succeeds token respond e) targets) = length targets - M"
    unfolding assms(4)
    using sum_length_filter_compl [of "delete_succeeds token respond" targets] by simp
  show "toastMessage (performBatchDelete token respond True s)
           = Some (if length targets - M = 0 then ToastBatchDeleted M
                   else ToastBatchPartial M (length targets - M))"
    unfolding p n by (simp add: batch_report_def showToastMsg_def)
  have ids: "\<And>x. x \<in> set (entries s) \<Longrightarrow> (entry_id x \<in> set (map entry_id targets)) = (x \<in> set targets)"
  proof -
    fix x assume x: "x \<in> set (entries s)"
    show "(entry_id x \<in> set (map entry_id targets)) = (x \<in> set targets)"
    proof
      assume "entry_id x \<in> set (map entry_id targets)"
      then obtain y where y: "y \<in> set targets" "entry_id y = entry_id x" by auto
      then have "y \<in> set (entries s)" using sub by auto
      with x y(2) assms(1) have "y = x" by (meson distinct_map inj_onD)
      with y(1) show "x \<in> set targets" by simp
    next
      assume "x \<in> set targets"
      then show "entry_id x \<in> set (map entry_id targets)" by simp
    qed
  qed
  have "set (entries (performBatchDelete token respond True s)) = set (entries s')"
    unfolding p by (simp add: batch_report_def showToastMsg_def)
  also have "\<dots> = set (entries s1) \<union> set (filter (\<lambda>e. \<not> delete_succeeds token respond e) targets)"
    using es m by simp
  also have "\<dots> = set (entries s) - set (filter (delete_succeeds token respond) targets)"
    unfolding e1 using ids sub by auto
  finally show "set (entries (performBatchDelete token respond True s))
           = set (entries s) - set (filter (delete_succeeds token respond) targets)" .
qed


text \<open>
  C5 at a concrete input, a state the component reaches from its mount. The list is 5, 4, 3
  and the entries 5 and 4 are selected; the network
  is down, so both requests fail. The report counts no success and two failures, and both
  entries are back, but in the order 4, 5, 3: every snapshot holds the index its entry had
  after the entries before it were hidden (0 for both), and the rollbacks run in the same
  order as the hides.
\<close>

theorem batch_rollback_reorders:
  "reachable batch_selection_state
   \<and> map entry_id (entries batch_selection_state) = [''5'', ''4'', ''3'']
   \<and> selectedEntryIds batch_selection_state = [''5'', ''4'']
   \<and> map entry_id (entries (performBatchDelete (Some ''t'') offline_network True
                                batch_selection_state)) = [''4'', ''5'', ''3'']
   \<and> toastMessage (performBatchDelete (Some ''t'') offline_network True batch_selection_state)
     = Some (ToastBatchPartial 0 2)"
proof -
  have "map entry_id (entries batch_selection_state) = [''5'', ''4'', ''3'']
   \<and> selectedEntryIds batch_selection_state = [''5'', ''4'']
   \<and> map entry_id (entries (performBatchDelete (Some ''t'') offline_network True
                                batch_selection_state)) = [''4'', ''5'', ''3'']
   \<and> toastMessage (performBatchDelete (Some ''t'') offline_network True batch_selection_state)
     = Some (ToastBatchPartial 0 2)"
    by code_simp
  with reachable_batch_selection_state show ?thesis by simp
qed

section \<open>Pending deletions stay hidden\<close>

subsection \<open>The invariant of the list\<close>

lemma queueImageLoads_list_cache [simp]:
  "list_cache (snd (queueImageLoads es s)) = list_cache s"
proof -
  obtain ic pl where "snd (queueImageLoads es s) = s\<lparr>pendingImageLoads := pl, image_cache := ic\<rparr>"
    using queueImageLoads_state by blast
  then show ?thesis by simp
qed

lemma list_invariant_ids:
  "list_invariant s \<longleftrightarrow>
     distinct (map item_id (map item (entries s)))
     \<and> item_id ` set (map item (entries s)) \<inter> pendingDeleteIds s = {}
     \<and> distinct (map item_id (case list_cache s of None \<Rightarrow> [] | Some l \<Rightarrow> l))"
proof -
  have "entry_id = (\<lambda>x. item_id (item x))"
    by (simp add: fun_eq_iff entry_id_def)
  then show ?thesis
    by (simp add: list_invariant_def no_pending_visible_items comp_def)
qed

lemma list_invariant_cong:
  assumes "entries s' = entries s" "pendingDeleteIds s' = pendingDeleteIds s"
    and "list_cache s' = list_cache s"
  shows "list_invariant s' = list_invariant s"
  using assms by (simp add: list_invariant_def no_pending_visible_def)

lemma mergeTopPage_list_cache:
  "list_cache (mergeTopPage its fi keep s)
     = Some (take PAGE_SIZE (filter (\<lambda>e. item_id e \<notin> pendingDeleteIds s) its))"
  by (simp add: mergeTopPage_unfold Let_def syncSelectionWithEntries_def setGalleryListCache_def)

lemma inv_mergeTopPage:
  assumes "list_invariant s" "distinct (map item_id its)"
  shows "list_invariant (mergeTopPage its fi keep s)"
proof -
  let ?vis = "filter (\<lambda>e. item_id e \<notin> pendingDeleteIds s) its"
  have dv: "distinct (map item_id ?vis)"
    using assms(2) by (simp add: distinct_map_filter)
  have dt: "distinct (map item_id (map item (filter (\<lambda>e. entry_id e \<notin> set (map item_id ?vis)) (entries s))))"
    using assms(1) unfolding list_invariant_ids
    by (simp add: distinct_map_filter comp_def)
  have disj: "set (map item_id ?vis)
                \<inter> set (map item_id (map item (filter (\<lambda>e. entry_id e \<notin> set (map item_id ?vis)) (entries s)))) = {}"
    by (auto simp: entry_id_def image_iff)
  have d: "distinct (map item_id (map item (entries (mergeTopPage its fi keep s))))"
    unfolding mergeTopPage_items using dv dt disj by (cases keep) simp_all
  have n: "no_pending_visible (mergeTopPage its fi keep s)"
    using no_pending_mergeTopPage(2) assms(1) by (simp add: list_invariant_def)
  have c: "distinct (map item_id (take PAGE_SIZE ?vis))"
    using dv by (simp add: take_map [symmetric])
  from d n [unfolded no_pending_visible_items] c show ?thesis
    unfolding list_invariant_ids mergeTopPage_list_cache by simp
qed


lemma load_begin_list_cache [simp]: "list_cache (snd (load_begin fi fl s)) = list_cache s"
  by (simp add: load_begin_def Let_def split_beta)

lemma inv_load_begin:
  assumes "list_invariant s"
  shows "list_invariant (snd (load_begin fi fl s))"
proof -
  have c: "distinct (map item_id (case list_cache s of None \<Rightarrow> [] | Some l \<Rightarrow> l))"
    using assms by (simp add: list_invariant_def)
  have n: "no_pending_visible (snd (load_begin fi fl s))"
    using no_pending_load_begin(2) assms by (simp add: list_invariant_def)
  have d: "distinct (map item_id (map item (entries (snd (load_begin fi fl s)))))"
  proof (cases "\<not> fl \<and> list_cache s \<noteq> None \<and> the (list_cache s) \<noteq> []")
    case True
    then obtain l where l: "list_cache s = Some l" by auto
    with c have "distinct (map item_id (take PAGE_SIZE l))"
      by (simp add: take_map [symmetric])
    then have "distinct (map item_id (filter (\<lambda>e. item_id e \<notin> pendingDeleteIds s) (take PAGE_SIZE l)))"
      by (simp add: distinct_map_filter)
    with True l show ?thesis unfolding load_begin_items by simp
  next
    case False
    with assms show ?thesis unfolding load_begin_items list_invariant_ids by auto
  qed
  from d n [unfolded no_pending_visible_items] c show ?thesis
    unfolding list_invariant_ids by simp
qed

lemma inv_load_response:
  assumes "list_invariant s" "distinct (map item_id (items pg))"
  shows "list_invariant (load_response fi fl had (Inr pg) s)"
proof -
  have "list_invariant (mergeTopPage (items pg) fi fl s)"
    using inv_mergeTopPage [OF assms] .
  moreover have "list_invariant (load_response fi fl had (Inr pg) s)
                   = list_invariant (mergeTopPage (items pg) fi fl s)"
    by (rule list_invariant_cong) (simp_all add: load_response_def Let_def)
  ultimately show ?thesis by simp
qed

lemma inv_load_error:
  assumes "list_invariant s"
  shows "list_invariant (load_response fi fl had (Inl e) s)"
  using assms by (simp add: load_response_def list_invariant_def no_pending_visible_def)

lemma inv_loadMore_response:
  assumes "list_invariant s"
  shows "list_invariant (loadMore_response result s)"
proof (cases result)
  case (Inl e)
  with assms show ?thesis
    by (simp add: loadMore_response_def list_invariant_def no_pending_visible_def)
next
  case (Inr pg)
  obtain app where a: "entries (loadMore_response (Inr pg) s) = entries s @ app"
    and dj: "set (map entry_id app) \<inter> set (map entry_id (entries s)) = {}"
    and da: "distinct (map entry_id app)"
    using loadMore_response_appends [of pg s] by blast
  have d: "distinct (map entry_id (entries (loadMore_response (Inr pg) s)))"
    unfolding a using assms dj da by (auto simp: list_invariant_def)
  have n: "no_pending_visible (loadMore_response (Inr pg) s)"
    using no_pending_loadMore_response assms by (simp add: list_invariant_def)
  have c: "list_cache (loadMore_response (Inr pg) s) = list_cache s"
    by (simp add: loadMore_response_def Let_def split_beta syncSelectionWithEntries_def)
  from d n c assms show ?thesis unfolding Inr by (simp add: list_invariant_def)
qed

lemma inv_hide:
  assumes "list_invariant s"
  shows "list_invariant (snd (hideEntryOptimistically eid s))"
proof (cases "findIndex (\<lambda>e. entry_id e = eid) (entries s)")
  case None
  with assms show ?thesis by (simp add: hideEntryOptimistically_def)
next
  case (Some i)
  then obtain snap s1 where h: "hideEntryOptimistically eid s = (Some snap, s1)"
    by (simp add: hideEntryOptimistically_def Let_def)
  note f = hide_found [OF h] and k = hide_snapshot [OF h]
  have ds: "distinct (map entry_id (entries s))" using assms by (simp add: list_invariant_def)
  have x: "entries s ! snap_index snap \<in> set (entries s)" using k(1) by simp
  have e1: "entries s1 = filter (\<lambda>e. entry_id e \<noteq> eid) (entries s)"
    using remove_nth_filter [OF ds k(1)] f(2,3) k(2) by simp
  have d: "distinct (map entry_id (entries s1))"
    unfolding e1 using ds by (simp add: distinct_map_filter)
  have n: "no_pending_visible s1"
    using assms unfolding no_pending_visible_def list_invariant_def e1 f(4) by auto
  have c: "list_cache s1 = list_cache s"
    using h by (auto simp: hideEntryOptimistically_def Let_def syncSelectionWithEntries_def
                  split: option.splits)
  from d n c assms show ?thesis by (simp add: h list_invariant_def)
qed

lemma inv_restore:
  assumes "list_invariant s"
  shows "list_invariant (restoreHiddenEntry snap s)"
proof (cases snap)
  case None
  with assms show ?thesis by (simp add: restoreHiddenEntry_def)
next
  case (Some sn)
  have c: "list_cache (restoreHiddenEntry (Some sn) s) = list_cache s"
    by (simp add: restoreHiddenEntry_def Let_def syncSelectionWithEntries_def)
  have ds: "distinct (map entry_id (entries s))" using assms by (simp add: list_invariant_def)
  show ?thesis
  proof (cases "entry_id (snap_entry sn) \<in> set (map entry_id (entries s))")
    case True
    then have "restoreHiddenEntry (Some sn) s
                 = s\<lparr>pendingDeleteIds := pendingDeleteIds s - {entry_id (snap_entry sn)}\<rparr>"
      by (simp add: restoreHiddenEntry_def Let_def)
    with assms Some show ?thesis
      by (auto simp: list_invariant_def no_pending_visible_def)
  next
    case False
    note r = restore_ids [OF False ds] and p = restore_absent(2) [OF False]
    have "no_pending_visible (restoreHiddenEntry (Some sn) s)"
      using assms unfolding no_pending_visible_def list_invariant_def r(2) p by auto
    with r(1) c assms Some show ?thesis by (simp add: list_invariant_def)
  qed
qed

lemma inv_finalize:
  assumes "list_invariant s"
  shows "list_invariant (finalizeDeleteSuccess e s)"
proof -
  have c: "list_cache (finalizeDeleteSuccess e s)
             = Some (take PAGE_SIZE (filter (\<lambda>i. item_id i \<noteq> entry_id e)
                  (case list_cache s of None \<Rightarrow> [] | Some l \<Rightarrow> l)))"
    by (simp add: finalizeDeleteSuccess_def syncSelectionWithEntries_def
          removeEntryFromLocalCache_def setGalleryListCache_def Let_def)
  have "distinct (map item_id (case list_cache s of None \<Rightarrow> [] | Some l \<Rightarrow> l))"
    using assms by (simp add: list_invariant_def)
  then have "distinct (map item_id (filter (\<lambda>i. item_id i \<noteq> entry_id e)
                  (case list_cache s of None \<Rightarrow> [] | Some l \<Rightarrow> l)))"
    by (simp add: distinct_map_filter)
  then have d: "distinct (map item_id (take PAGE_SIZE (filter (\<lambda>i. item_id i \<noteq> entry_id e)
                  (case list_cache s of None \<Rightarrow> [] | Some l \<Rightarrow> l))))"
    by (simp add: take_map [symmetric])
  from assms d show ?thesis
    by (auto simp: list_invariant_def no_pending_visible_def c)
qed


lemma inv_hide_targets:
  assumes "list_invariant s"
  shows "list_invariant (snd (hide_targets ts s))"
  using assms
proof (induction ts arbitrary: s)
  case Nil
  then show ?case by simp
next
  case (Cons t ts)
  have "list_invariant (snd (hideEntryOptimistically (entry_id t) s))"
    using inv_hide [OF Cons.prems] .
  from Cons.IH [OF this] show ?case
    by (simp add: split_beta)
qed

lemma inv_performDelete_end:
  assumes "list_invariant s"
  shows "list_invariant (performDelete_end e snap outcome s)"
proof (cases outcome)
  case (Inl err)
  have "list_invariant (performDelete_end e snap outcome s)
          = list_invariant (restoreHiddenEntry snap s)"
    by (rule list_invariant_cong) (simp_all add: performDelete_end_def Inl showToastMsg_def)
  then show ?thesis using inv_restore [OF assms] by simp
next
  case (Inr b)
  have "list_invariant (performDelete_end e snap outcome s)
          = list_invariant (finalizeDeleteSuccess e s)"
    by (rule list_invariant_cong) (simp_all add: performDelete_end_def Inr showToastMsg_def)
  then show ?thesis using inv_finalize [OF assms] by simp
qed

lemma inv_performBatchDelete_begin:
  assumes "list_invariant s"
  shows "list_invariant (snd (performBatchDelete_begin ok s))"
proof -
  let ?ts = "filter (\<lambda>e. entry_id e \<in> set (selectedEntryIds s)) (entries s)"
  consider "length ?ts = 0" | "length ?ts \<noteq> 0" "\<not> ok" | "length ?ts \<noteq> 0" "ok" by blast
  then show ?thesis
  proof cases
    case 1
    have "list_invariant (snd (performBatchDelete_begin ok s)) = list_invariant s"
      by (rule list_invariant_cong)
         (use 1 in \<open>simp_all add: performBatchDelete_begin_def Let_def showToastMsg_def\<close>)
    with assms show ?thesis by simp
  next
    case 2
    then have "snd (performBatchDelete_begin ok s) = s"
      by (simp add: performBatchDelete_begin_def Let_def)
    with assms show ?thesis by simp
  next
    case 3
    have "list_invariant (snd (performBatchDelete_begin ok s))
            = list_invariant (snd (hide_targets ?ts s))"
      by (rule list_invariant_cong)
         (use 3 in \<open>simp_all add: performBatchDelete_begin_def Let_def split_beta\<close>)
    with inv_hide_targets [OF assms] show ?thesis by simp
  qed
qed

lemma inv_batch_step:
  assumes "list_invariant s"
  shows "list_invariant (fst (batch_step target outcome (s, m, n)))"
  using inv_restore [OF assms] inv_finalize [OF assms]
  by (cases outcome) (simp_all add: batch_step_def)

lemma reachable_list_invariant:
  assumes "reachable s"
  shows "list_invariant s"
  using assms
proof (induction rule: reachable.induct)
  case (mounted lc ic)
  then show ?case
    by (simp add: list_invariant_def no_pending_visible_def initial_state_def)
next
  case (load_begins s forceImageRefresh forceListRefresh)
  then show ?case using inv_load_begin by blast
next
  case (load_responds s pg forceImageRefresh forceListRefresh hadEntries)
  then show ?case using inv_load_response by blast
next
  case (load_fails s forceImageRefresh forceListRefresh hadEntries err)
  then show ?case using inv_load_error by blast
next
  case (loadMore_begins s token req s')
  then have "s' = s\<lparr>loadingMore := True\<rparr>"
    by (auto simp: loadMore_begin_def split: if_splits)
  then have "list_invariant s' = list_invariant s"
    by (intro list_invariant_cong) simp_all
  with loadMore_begins show ?case by simp
next
  case (loadMore_responds s result)
  then show ?case using inv_loadMore_response by blast
next
  case (dialog_opens s e)
  have "list_invariant (openDeleteModal e s) = list_invariant s"
    by (rule list_invariant_cong) (simp_all add: openDeleteModal_def)
  with dialog_opens show ?case by simp
next
  case (dialog_closes s)
  have "list_invariant (cancelDelete s) = list_invariant s"
    by (rule list_invariant_cong) (simp_all add: cancelDelete_def)
  with dialog_closes show ?case by simp
next
  case (delete_begins s e snap s')
  then have s': "s' = snd (hideEntryOptimistically (entry_id e) (s\<lparr>showDeleteModal := False\<rparr>))"
    by (auto simp: performDelete_begin_def split: option.splits if_splits prod.splits)
  have "list_invariant (s\<lparr>showDeleteModal := False\<rparr>) = list_invariant s"
    by (rule list_invariant_cong) simp_all
  with delete_begins have "list_invariant (s\<lparr>showDeleteModal := False\<rparr>)" by simp
  from inv_hide [OF this] s' show ?case by simp
next
  case (delete_ends s e snap outcome)
  then show ?case using inv_performDelete_end by blast
next
  case (batch_begins s ok)
  then show ?case using inv_performBatchDelete_begin by blast
next
  case (batch_steps s target outcome successCount failCount)
  then show ?case using inv_batch_step by blast
next
  case (batch_reports s successCount failCount)
  have "list_invariant (batch_report (s, successCount, failCount)) = list_invariant s"
    by (rule list_invariant_cong) (simp_all add: batch_report_def showToastMsg_def)
  with batch_reports show ?case by simp
next
  case (batch_mode_toggles s)
  have "list_invariant (toggleBatchMode s) = list_invariant s"
    by (rule list_invariant_cong) (simp_all add: toggleBatchMode_def Let_def)
  with batch_mode_toggles show ?case by simp
next
  case (selection_toggles s entryId)
  have "list_invariant (toggleEntrySelection entryId s) = list_invariant s"
    by (rule list_invariant_cong) (simp_all add: toggleEntrySelection_def)
  with selection_toggles show ?case by simp
next
  case (selection_clears s)
  have "list_invariant (clearBatchSelection s) = list_invariant s"
    by (rule list_invariant_cong) (simp_all add: clearBatchSelection_def)
  with selection_clears show ?case by simp
next
  case (select_all_toggles s)
  have "list_invariant (toggleSelectAllEntries s) = list_invariant s"
    by (rule list_invariant_cong)
       (simp_all add: toggleSelectAllEntries_def clearBatchSelection_def Let_def)
  with select_all_toggles show ?case by simp
next
  case (image_cache_clears s s')
  then have s': "s' = s\<lparr>image_cache := Map.empty,
                   entries := map (\<lambda>e. e\<lparr>src := None, entry_loading := truthy (file_id (item e))\<rparr>)
                                (entries s),
                   toastMessage := Some ToastCacheCleared, showToast := True\<rparr>"
    by (simp add: clearImageCache_begin_def)
  have ids: "map entry_id (entries s') = map entry_id (entries s)"
    by (simp add: s' entry_id_def comp_def)
  have "pendingDeleteIds s' = pendingDeleteIds s" "list_cache s' = list_cache s"
    by (simp_all add: s')
  with ids image_cache_clears(3) show ?case
    by (simp add: list_invariant_def no_pending_visible_def)
qed

lemma reachable_no_pending:
  "reachable s \<Longrightarrow> no_pending_visible s"
  using reachable_list_invariant by (simp add: list_invariant_def)

subsection \<open>The merges\<close>

text \<open>
  C1. No merge makes an id of the pending-deletion set visible, whatever the fetched page or
  the list cache holds. A merge that replaces the list (the paint from the list cache, the
  merge of a first page that is not a forced refresh) yields a list without pending ids. A
  merge that keeps entries of the list (the forced refresh, which keeps the tail, and
  \<open>loadMore\<close>, which appends) yields one whenever the list held none before. And the list
  never holds one: in every state the component can reach, with handlers interleaved at
  their \<open>await\<close>s in any order, no visible entry is pending deletion.
\<close>

theorem pending_deletion_exclusion:
  "no_pending_visible (mergeTopPage its fi False s)
   \<and> (\<not> fl \<and> list_cache s \<noteq> None \<and> the (list_cache s) \<noteq> []
        \<longrightarrow> no_pending_visible (snd (load_begin fi fl s)))
   \<and> (no_pending_visible s \<longrightarrow>
         no_pending_visible (snd (load_begin fi fl s))
       \<and> no_pending_visible (mergeTopPage its fi keep s)
       \<and> no_pending_visible (load_response fi fl had result s)
       \<and> no_pending_visible (loadMore_response result s)
       \<and> no_pending_visible (load token respond fi fl s)
       \<and> no_pending_visible (loadMore token respond s))
   \<and> (reachable s \<longrightarrow> no_pending_visible s)"
  by (simp add: no_pending_mergeTopPage no_pending_load_begin no_pending_load_response
    no_pending_loadMore_response no_pending_load no_pending_loadMore reachable_no_pending)


theorem pending_deletion_exclusion_witness:
  "no_pending_visible (snd (hideEntryOptimistically ''4'' scenario_state))
   \<and> no_pending_visible
        (load (Some ''t'') (scenario_network scenario_store) False True
           (snd (hideEntryOptimistically ''4'' scenario_state)))"
proof -
  have h: "no_pending_visible (snd (hideEntryOptimistically ''4'' scenario_state))"
    by code_simp
  show ?thesis
    using h pending_deletion_exclusion
      [of "[]" False "snd (hideEntryOptimistically ''4'' scenario_state)" True False False "Inl (Error [])"
          "Some ''t''" "scenario_network scenario_store"]
    by simp
qed

section \<open>Properties of the selection\<close>

text \<open>
  Every mutation of the list that ends with \<open>syncSelectionWithEntries\<close> leaves the selection
  inside the list, and \<open>loadMore\<close> and the early returns of the rollback keep it there.
\<close>

lemma sync_establishes: "selection_synced (syncSelectionWithEntries s)"
  by (auto simp: selection_synced_def syncSelectionWithEntries_def)

lemma selection_synced_mergeTopPage: "selection_synced (mergeTopPage its fi keep s)"
  by (simp add: mergeTopPage_def Let_def split_beta sync_establishes)

lemma selection_synced_loadMore_response:
  assumes "selection_synced s"
  shows "selection_synced (loadMore_response r s)"
proof (cases r)
  case (Inl e)
  with assms show ?thesis by (simp add: loadMore_response_def selection_synced_def)
next
  case (Inr pg)
  let ?app = "appendedEntries (set (map entry_id (entries s))) (image_cache s)
                (filter (\<lambda>e. item_id e \<notin> pendingDeleteIds s) (items pg))"
  show ?thesis
  proof (cases "0 < length ?app")
    case True
    have "selection_synced (syncSelectionWithEntries
            ((snd (queueImageLoads ?app s))\<lparr>entries := entries s @ fst (queueImageLoads ?app s)\<rparr>))"
      by (rule sync_establishes)
    then show ?thesis using True Inr
      by (simp add: loadMore_response_def Let_def split_beta selection_synced_def)
  next
    case False
    with assms Inr show ?thesis
      by (simp add: loadMore_response_def Let_def selection_synced_def)
  qed
qed

lemma selection_synced_hide:
  assumes "selection_synced s"
  shows "selection_synced (snd (hideEntryOptimistically eid s))"
proof (cases "findIndex (\<lambda>e. entry_id e = eid) (entries s)")
  case None
  with assms show ?thesis by (simp add: hideEntryOptimistically_def)
next
  case (Some i)
  then show ?thesis by (simp add: hideEntryOptimistically_def Let_def sync_establishes)
qed

lemma selection_synced_restore:
  assumes "selection_synced s"
  shows "selection_synced (restoreHiddenEntry snap s)"
proof (cases snap)
  case None
  with assms show ?thesis by (simp add: restoreHiddenEntry_def)
next
  case (Some sn)
  show ?thesis
  proof (cases "entry_id (snap_entry sn) \<in> set (map entry_id (entries s))")
    case True
    with assms Some show ?thesis
      by (simp add: restoreHiddenEntry_def Let_def selection_synced_def)
  next
    case False
    with Some show ?thesis
      by (simp add: restoreHiddenEntry_def Let_def sync_establishes)
  qed
qed

lemma selection_synced_finalize: "selection_synced (finalizeDeleteSuccess e s)"
  by (simp add: finalizeDeleteSuccess_def sync_establishes)

text \<open>
  C9 at a concrete input, a state the component reaches from its mount. The list is 5, 4, 3
  where entry 3 is a tail kept by a background refresh, the list cache holds 5, 4, batch mode
  is on and entry 3 is selected. Clearing the
  image cache calls \<open>load(true, false)\<close>, whose paint from the list cache replaces the list by
  5, 4 and leaves the selection as it is: the selected id 3 is no longer in the list. If the
  request then fails, \<open>load\<close> ends in that state.
\<close>

theorem cache_paint_leaves_stale_selection:
  "reachable (snd (load_begin True False stale_tail_state))
   \<and> reachable (load (Some ''t'') offline_network True False stale_tail_state)
   \<and> selection_synced stale_tail_state
   \<and> batchMode stale_tail_state
   \<and> map entry_id (entries stale_tail_state) = [''5'', ''4'', ''3'']
   \<and> selectedEntryIds stale_tail_state = [''3'']
   \<and> map entry_id (entries (snd (load_begin True False stale_tail_state))) = [''5'', ''4'']
   \<and> selectedEntryIds (snd (load_begin True False stale_tail_state)) = [''3'']
   \<and> \<not> selection_synced (snd (load_begin True False stale_tail_state))
   \<and> \<not> selection_synced (load (Some ''t'') offline_network True False stale_tail_state)"
proof -
  have "selection_synced stale_tail_state
   \<and> batchMode stale_tail_state
   \<and> map entry_id (entries stale_tail_state) = [''5'', ''4'', ''3'']
   \<and> selectedEntryIds stale_tail_state = [''3'']
   \<and> map entry_id (entries (snd (load_begin True False stale_tail_state))) = [''5'', ''4'']
   \<and> selectedEntryIds (snd (load_begin True False stale_tail_state)) = [''3'']
   \<and> \<not> selection_synced (snd (load_begin True False stale_tail_state))
   \<and> \<not> selection_synced (load (Some ''t'') offline_network True False stale_tail_state)"
    by code_simp
  moreover have "reachable (snd (load_begin True False stale_tail_state))"
    by (intro reachable.load_begins reachable_stale_tail_state)
  moreover have "reachable (load (Some ''t'') offline_network True False stale_tail_state)"
    by (intro reachable_load_offline reachable_stale_tail_state)
  ultimately show ?thesis by simp
qed


section \<open>Properties of the token helpers\<close>

lemma decimal_digits_seconds:
  "decimal_digits 1700000000 = ''1700000000''" "decimal_digits 1731536000 = ''1731536000''"
  by code_simp+

text \<open>
  For the user name \<open>admin\<close> the token is the usual one: the header and payload segments are
  the base64url texts of the two JSON objects (here with a made-up signature of eight bytes).
\<close>

lemma login_token_admin:
  "login_token (\<lambda>k m. [1, 2, 3, 255, 254, 253, 0, 0]) (ascii ''admin'') (ascii ''change-me'')
       1700000000123
     = Inr (ascii (''eyJhbGciOiJIUzI1NiIsInR5cCI6IkpXVCJ9''
                   @ ''.eyJ1c2VyIjoiYWRtaW4iLCJpYXQiOjE3MDAwMDAwMDAsImV4cCI6MTczMTUzNjAwMH0''
                   @ ''.AQID__79AAA''))"
  by (simp add: login_token_def jwtSign_def default_expiry_def Let_def base64UrlEncode_def
        btoa_def b64_char_def JSON_stringify_def json_quote_def json_value_text_def ascii_def
        json_escape_def decimal_digits_seconds)

text \<open>
  C10 at a concrete input. The payload is \<open>{ user: u }\<close> where \<open>u\<close> is a user name of three
  Chinese characters (code units 31649, 29702, 21592), the secret is \<open>change-me\<close> and the
  expiry is the default. \<open>JSON.stringify\<close> keeps these characters as they are, \<open>btoa\<close> rejects a
  code unit above 255, and \<open>jwtSign\<close> throws before anything is signed: there is no token to
  verify, whatever the HMAC is.
\<close>

theorem jwtSign_rejects_non_latin1:
  "jwtSign hmac [(ascii ''user'', JString [31649, 29702, 21592])] (ascii ''change-me'')
       default_expiry 1700000000123
     = Inl InvalidCharacterError"
  by (simp add: jwtSign_def default_expiry_def Let_def base64UrlEncode_def btoa_def
        JSON_stringify_def json_quote_def json_value_text_def ascii_def json_escape_def
        decimal_digits_seconds)

end
